theory Spec2Isabelle
  imports Complex_Main "HOL-Library.Sublist"
begin

section \<open>Rate limiter (services/rate\_limiter.py)\<close>

text \<open>
  Instants (\<open>datetime.now()\<close>) are counted in microseconds, the resolution of Python's
  \<open>datetime\<close>; \<open>timedelta(minutes=m)\<close> is \<open>m * 60000000\<close> of them. The clock is read
  once per call of \<open>check_rate_limit\<close>, so the instant is an argument of the model.
\<close>

type_synonym instant = int

definition timedelta_minutes :: "int \<Rightarrow> int" where
  "timedelta_minutes m = m * 60000000"

record limit_info =
  limit :: int
  remaining :: int
  reset_time :: "instant option"
  window_minutes :: int

type_synonym rate_limits = "string \<rightharpoonup> limit_info"

text \<open>\<open>setup_advanced_limits\<close>: the three windows a new limiter starts with.\<close>

definition setup_advanced_limits :: rate_limits where
  "setup_advanced_limits =
     [''search_recent'' \<mapsto> \<lparr>limit = 60, remaining = 60, reset_time = None, window_minutes = 15\<rparr>,
      ''post_tweet'' \<mapsto> \<lparr>limit = 100, remaining = 100, reset_time = None, window_minutes = 1440\<rparr>,
      ''retweet'' \<mapsto> \<lparr>limit = 5, remaining = 5, reset_time = None, window_minutes = 15\<rparr>]"

text \<open>
  \<open>check_rate_limit\<close>: the dictionary entry is mutated in place, so the entry written
  back carries the initialised or renewed reset instant also when the call is denied.
\<close>

definition init_reset :: "instant \<Rightarrow> limit_info \<Rightarrow> limit_info" where
  "init_reset now li =
     (case reset_time li of
        None \<Rightarrow> li\<lparr>reset_time := Some (now + timedelta_minutes (window_minutes li))\<rparr>
      | Some _ \<Rightarrow> li)"

definition lazy_reset :: "instant \<Rightarrow> limit_info \<Rightarrow> limit_info" where
  "lazy_reset now li =
     (case reset_time li of
        None \<Rightarrow> li
      | Some r \<Rightarrow>
          if now > r
          then li\<lparr>remaining := limit li,
                  reset_time := Some (now + timedelta_minutes (window_minutes li))\<rparr>
          else li)"

definition check_rate_limit :: "instant \<Rightarrow> string \<Rightarrow> rate_limits \<Rightarrow> bool \<times> rate_limits" where
  "check_rate_limit now endpoint rl =
     (case rl endpoint of
        None \<Rightarrow> (True, rl)
      | Some li0 \<Rightarrow>
          let li = lazy_reset now (init_reset now li0)
          in if remaining li > 0
             then (True, rl(endpoint \<mapsto> li\<lparr>remaining := remaining li - 1\<rparr>))
             else (False, rl(endpoint \<mapsto> li)))"

text \<open>A sequence of acquisition attempts on one endpoint, one instant per attempt.\<close>

fun check_many :: "string \<Rightarrow> instant list \<Rightarrow> rate_limits \<Rightarrow> bool list \<times> rate_limits" where
  "check_many endpoint [] rl = ([], rl)"
| "check_many endpoint (t # ts) rl =
     (let (ok, rl') = check_rate_limit t endpoint rl;
          (oks, rl'') = check_many endpoint ts rl'
      in (ok # oks, rl''))"

section \<open>Python strings\<close>

text \<open>
  A Python \<open>str\<close> is a sequence of Unicode code points, modelled as a list of integers;
  \<open>lit\<close> reads an ASCII literal of the source. On the ASCII range the character classes
  and the lowercase are written out below. Beyond ASCII they are what the Unicode
  database of the interpreter says, and the model takes that database as a
  parameter \<open>U\<close>:
  \<^item> \<open>isspace\<close>, the whitespace test shared by \<open>str.split()\<close>, \<open>str.strip()\<close> and the
    pattern class \<open>\s\<close>;
  \<^item> \<open>isalnum\<close>, the alphanumeric test (the pattern class \<open>\w\<close> is this or \<open>_\<close>);
  \<^item> \<open>decimal\<close>, the value of a decimal digit (the pattern class \<open>\d\<close> is "has a
    value", and \<open>int\<close> reads the values);
  \<^item> \<open>str_lower\<close>, \<open>str.lower\<close> on a text that is not all ASCII (it works on the whole
    text: a capital sigma lowers by its position, and one code point can lower to two);
  \<^item> \<open>ci_match\<close>, whether a non-ASCII code point matches an ASCII letter of a pattern
    under \<open>re.IGNORECASE\<close>.
\<close>

type_synonym str = "int list"

definition lit :: "string \<Rightarrow> str" where
  "lit s = map of_char s"

record unicode =
  isspace :: "int \<Rightarrow> bool"
  isalnum :: "int \<Rightarrow> bool"
  decimal :: "int \<Rightarrow> int option"
  str_lower :: "str \<Rightarrow> str"
  ci_match :: "int \<Rightarrow> int \<Rightarrow> bool"

definition is_ascii :: "int \<Rightarrow> bool" where
  "is_ascii c = (0 \<le> c \<and> c < 128)"

definition is_space :: "unicode \<Rightarrow> int \<Rightarrow> bool" where
  "is_space U c =
     (if is_ascii c then (9 \<le> c \<and> c \<le> 13) \<or> (28 \<le> c \<and> c \<le> 32) else isspace U c)"

definition is_digit :: "unicode \<Rightarrow> int \<Rightarrow> bool" where
  "is_digit U c = (if is_ascii c then 48 \<le> c \<and> c \<le> 57 else decimal U c \<noteq> None)"

definition is_upper :: "int \<Rightarrow> bool" where
  "is_upper c = (65 \<le> c \<and> c \<le> 90)"

definition is_lower :: "int \<Rightarrow> bool" where
  "is_lower c = (97 \<le> c \<and> c \<le> 122)"

definition is_word :: "unicode \<Rightarrow> int \<Rightarrow> bool" where
  "is_word U c =
     (if is_ascii c then is_upper c \<or> is_lower c \<or> (48 \<le> c \<and> c \<le> 57) \<or> c = 95
      else isalnum U c)"

definition lower_char :: "int \<Rightarrow> int" where
  "lower_char c = (if is_upper c then c + 32 else c)"

definition lower :: "unicode \<Rightarrow> str \<Rightarrow> str" where
  "lower U s = (if list_all is_ascii s then map lower_char s else str_lower U s)"

text \<open>\<open>s.strip()\<close>, \<open>s.split()\<close> (runs of whitespace separate, no empty piece) and \<open>sub in s\<close>.\<close>

definition strip :: "unicode \<Rightarrow> str \<Rightarrow> str" where
  "strip U s = rev (dropWhile (is_space U) (rev (dropWhile (is_space U) s)))"

fun split_ws_aux :: "unicode \<Rightarrow> str \<Rightarrow> str \<Rightarrow> str list" where
  "split_ws_aux U cur [] = (if cur = [] then [] else [rev cur])"
| "split_ws_aux U cur (c # cs) =
     (if is_space U c
      then (if cur = [] then split_ws_aux U [] cs else rev cur # split_ws_aux U [] cs)
      else split_ws_aux U (c # cur) cs)"

definition split_ws :: "unicode \<Rightarrow> str \<Rightarrow> str list" where
  "split_ws U s = split_ws_aux U [] s"

fun contains :: "str \<Rightarrow> str \<Rightarrow> bool" where
  "contains sub [] = (sub = [])"
| "contains sub (c # cs) = (prefix sub (c # cs) \<or> contains sub cs)"

text \<open>
  \<open>s.split(sep)\<close> for a non-empty separator: the pieces between the occurrences of \<open>sep\<close>
  found from the left, empty pieces kept, so the result always has a first element.
  After a separator is found at a position, the rest of it is skipped.
\<close>

fun split_on_aux :: "str \<Rightarrow> nat \<Rightarrow> str \<Rightarrow> str \<Rightarrow> str list" where
  "split_on_aux sep skip cur [] = [rev cur]"
| "split_on_aux sep skip cur (c # cs) =
     (if skip > 0 then split_on_aux sep (skip - 1) cur cs
      else if sep \<noteq> [] \<and> prefix sep (c # cs)
      then rev cur # split_on_aux sep (length sep - 1) [] cs
      else split_on_aux sep 0 (c # cur) cs)"

definition split_on :: "str \<Rightarrow> str \<Rightarrow> str list" where
  "split_on sep s = split_on_aux sep 0 [] s"

text \<open>The exceptions of the source that the model distinguishes.\<close>

datatype py_error = IndexError | ValueError

text \<open>
  The substitutions of the source: \<open>re.sub(r'[^\w\s]', '', s)\<close>,
  \<open>re.sub(r'[^\w\s]', ' ', s)\<close> and \<open>re.sub(r'\s+', ' ', s)\<close>.
\<close>

definition remove_punct :: "unicode \<Rightarrow> str \<Rightarrow> str" where
  "remove_punct U s = filter (\<lambda>c. is_word U c \<or> is_space U c) s"

definition blank_punct :: "unicode \<Rightarrow> str \<Rightarrow> str" where
  "blank_punct U s = map (\<lambda>c. if is_word U c \<or> is_space U c then c else 32) s"

fun collapse_ws_aux :: "unicode \<Rightarrow> bool \<Rightarrow> str \<Rightarrow> str" where
  "collapse_ws_aux U in_run [] = []"
| "collapse_ws_aux U in_run (c # cs) =
     (if is_space U c
      then (if in_run then collapse_ws_aux U True cs else 32 # collapse_ws_aux U True cs)
      else c # collapse_ws_aux U False cs)"

definition collapse_ws :: "unicode \<Rightarrow> str \<Rightarrow> str" where
  "collapse_ws U s = collapse_ws_aux U False s"

text \<open>
  A database that knows nothing beyond ASCII, to run the definitions on ASCII text,
  where the database is not consulted.
\<close>

definition plain :: unicode where
  "plain = \<lparr>isspace = (\<lambda>c. False), isalnum = (\<lambda>c. False), decimal = (\<lambda>c. None),
            str_lower = (\<lambda>s. s), ci_match = (\<lambda>p c. False)\<rparr>"

section \<open>Floating-point scores\<close>

text \<open>
  The scores are Python floats. A float operation is the exact operation on the reals
  followed by rounding to a representable number, so the scoring functions take the
  rounding function \<open>rnd\<close> as a parameter: a literal \<open>0.1\<close> is \<open>rnd (1/10)\<close>, and
  \<open>a + b\<close> is \<open>rnd (a + b)\<close>. The literals \<open>0.0\<close> and \<open>1.0\<close> are representable and stand
  for themselves. The identity is the idealised arithmetic without rounding error.
\<close>

type_synonym rounding = "real \<Rightarrow> real"

definition fadd :: "rounding \<Rightarrow> real \<Rightarrow> real \<Rightarrow> real" where
  "fadd rnd a b = rnd (a + b)"

definition fmul :: "rounding \<Rightarrow> real \<Rightarrow> real \<Rightarrow> real" where
  "fmul rnd a b = rnd (a * b)"

section \<open>Calendar dates\<close>

text \<open>
  Python's \<open>datetime\<close>: year, month and day as the constructor checks them, and the time
  of day (hour, minute, second, microsecond) as one count \<open>tod\<close> of microseconds since
  midnight. Comparison is lexicographic. The constructor and \<open>replace\<close> raise
  \<open>ValueError\<close> when the day does not exist.
\<close>

record datetime =
  year :: int
  month :: int
  day :: int
  tod :: int

definition is_leap :: "int \<Rightarrow> bool" where
  "is_leap y = (y mod 4 = 0 \<and> (y mod 100 \<noteq> 0 \<or> y mod 400 = 0))"

definition days_in_month :: "int \<Rightarrow> int \<Rightarrow> int" where
  "days_in_month y m =
     (if m = 2 then (if is_leap y then 29 else 28)
      else if m = 4 \<or> m = 6 \<or> m = 9 \<or> m = 11 then 30 else 31)"

definition valid_date :: "int \<Rightarrow> int \<Rightarrow> int \<Rightarrow> bool" where
  "valid_date y m d = (1 \<le> y \<and> y \<le> 9999 \<and> 1 \<le> m \<and> m \<le> 12 \<and> 1 \<le> d \<and> d \<le> days_in_month y m)"

definition mk_datetime :: "int \<Rightarrow> int \<Rightarrow> int \<Rightarrow> py_error + datetime" where
  "mk_datetime y m d =
     (if valid_date y m d then Inr \<lparr>year = y, month = m, day = d, tod = 0\<rparr> else Inl ValueError)"

definition replace_year_month :: "datetime \<Rightarrow> int \<Rightarrow> int \<Rightarrow> py_error + datetime" where
  "replace_year_month dt y m =
     (if valid_date y m (day dt) then Inr (dt\<lparr>year := y, month := m\<rparr>) else Inl ValueError)"

definition dt_less :: "datetime \<Rightarrow> datetime \<Rightarrow> bool" where
  "dt_less a b =
     (year a < year b \<or> (year a = year b \<and>
       (month a < month b \<or> (month a = month b \<and>
         (day a < day b \<or> (day a = day b \<and> tod a < tod b))))))"

definition dt_le :: "datetime \<Rightarrow> datetime \<Rightarrow> bool" where
  "dt_le a b = (\<not> dt_less b a)"

section \<open>Numbers in text\<close>

text \<open>
  \<open>re.search(r'(\d{1,2})', s)\<close>: the first digit of \<open>s\<close> together with the digit that
  follows it, if one does. \<open>re.search(r'20(\d{2})', s).group()\<close>: the first \<open>20\<close> followed
  by two digits, all four characters. \<open>int\<close> reads decimal digits by their values;
  \<open>str\<close> and the \<open>strftime\<close> directives \<open>%Y\<close> and \<open>%d\<close> write them, \<open>%B\<close> writes the
  English month name.
\<close>

fun search_digits12 :: "unicode \<Rightarrow> str \<Rightarrow> str option" where
  "search_digits12 U [] = None"
| "search_digits12 U (c # cs) =
     (if is_digit U c
      then (case cs of
              [] \<Rightarrow> Some [c]
            | d # _ \<Rightarrow> if is_digit U d then Some [c, d] else Some [c])
      else search_digits12 U cs)"

fun search_year20 :: "unicode \<Rightarrow> str \<Rightarrow> str option" where
  "search_year20 U [] = None"
| "search_year20 U (c # cs) =
     (case c # cs of
        a # b # d # e # _ \<Rightarrow>
          if a = 50 \<and> b = 48 \<and> is_digit U d \<and> is_digit U e then Some [a, b, d, e]
          else search_year20 U cs
      | _ \<Rightarrow> None)"

definition digit_val :: "unicode \<Rightarrow> int \<Rightarrow> int" where
  "digit_val U c =
     (if is_ascii c then c - 48 else (case decimal U c of None \<Rightarrow> 0 | Some v \<Rightarrow> v))"

definition int_of_digits :: "unicode \<Rightarrow> str \<Rightarrow> int" where
  "int_of_digits U s = foldl (\<lambda>n c. 10 * n + digit_val U c) 0 s"

function str_digits :: "int \<Rightarrow> str" where
  "str_digits n = (if n < 10 then [48 + n] else str_digits (n div 10) @ [48 + n mod 10])"
  by pat_completeness auto
termination
  by (relation "measure nat") auto

definition str_int :: "int \<Rightarrow> str" where
  "str_int i = (if i < 0 then 45 # str_digits (- i) else str_digits i)"

definition strftime_d :: "datetime \<Rightarrow> str" where
  "strftime_d dt = (if day dt < 10 then 48 # str_int (day dt) else str_int (day dt))"

definition month_names :: "string list" where
  "month_names = [''January'', ''February'', ''March'', ''April'', ''May'', ''June'', ''July'',
                  ''August'', ''September'', ''October'', ''November'', ''December'']"

definition strftime_B :: "datetime \<Rightarrow> str" where
  "strftime_B dt =
     (if 1 \<le> month dt \<and> month dt \<le> 12 then lit (month_names ! nat (month dt - 1)) else [])"

section \<open>Event engine: dates (engines/event\_engine.py)\<close>

text \<open>
  The month table of \<open>_parse_date_string\<close> and \<open>_parse_user_date\<close>, in the insertion order
  in which the loop over \<open>months.items()\<close> visits it.
\<close>

definition months :: "(str \<times> int) list" where
  "months = map (\<lambda>(month_name, month_num). (lit month_name, month_num))
     [(''jan'', 1), (''january'', 1), (''feb'', 2), (''february'', 2),
      (''mar'', 3), (''march'', 3), (''apr'', 4), (''april'', 4),
      (''may'', 5), (''jun'', 6), (''june'', 6), (''jul'', 7), (''july'', 7),
      (''aug'', 8), (''august'', 8), (''sep'', 9), (''sept'', 9), (''september'', 9),
      (''oct'', 10), (''october'', 10), (''nov'', 11), (''november'', 11),
      (''dec'', 12), (''december'', 12)]"

definition short_months :: "str list" where
  "short_months = map lit
                  [''jan'', ''feb'', ''mar'', ''apr'', ''may'', ''jun'', ''jul'', ''aug'',
                   ''sep'', ''oct'', ''nov'', ''dec'']"

definition en_dash :: str where
  "en_dash = [8211]"

text \<open>
  The date portion of texts like \<open>Sat, Nov 22, 8 - 11 PM\<close>: when the text has a comma and a
  month abbreviation, what stands between the first and the second comma, cut at the
  first en dash, \<open>PM\<close> and \<open>AM\<close>. Every \<open>split\<close> yields a first piece, and the piece
  after the first comma exists because the text has a comma; the model returns the
  text unchanged where Python would find no such piece.
\<close>

definition first_piece :: "str \<Rightarrow> str \<Rightarrow> str" where
  "first_piece sep s = (case split_on sep s of [] \<Rightarrow> s | p # _ \<Rightarrow> p)"

definition date_portion :: "unicode \<Rightarrow> str \<Rightarrow> str" where
  "date_portion U clean_str =
     (if contains (lit '','') clean_str
         \<and> list_ex (\<lambda>m. contains m (lower U clean_str)) short_months
      then (case split_on (lit '','') clean_str of
              _ # p # _ \<Rightarrow>
                strip U (first_piece (lit ''AM'') (first_piece (lit ''PM'') (first_piece en_dash p)))
            | _ \<Rightarrow> clean_str)
      else clean_str)"

text \<open>
  \<open>_parse_date_string\<close>, with the clock reading \<open>now\<close> as an argument. The first month
  name of the table (in table order) that occurs in the text decides the month; the
  day is the first one or two digits of the text. Every exception is caught by the
  function and gives \<open>None\<close>: a day that does not exist in the month, and a 29 February
  moved to a year that has none.
\<close>

definition parse_date_string :: "unicode \<Rightarrow> datetime \<Rightarrow> str \<Rightarrow> datetime option" where
  "parse_date_string U now date_str =
     (if date_str = [] then None
      else
        let clean_str = date_portion U (strip U date_str)
        in case find (\<lambda>(month_name, month_num). contains month_name (lower U clean_str)) months of
             None \<Rightarrow> None
           | Some (month_name, month_num) \<Rightarrow>
               (case search_digits12 U clean_str of
                  None \<Rightarrow> None
                | Some day_match \<Rightarrow>
                    let current_year = year now
                    in case mk_datetime current_year month_num (int_of_digits U day_match) of
                         Inl _ \<Rightarrow> None
                       | Inr proposed_date \<Rightarrow>
                           if dt_less proposed_date now
                           then (case replace_year_month proposed_date (current_year + 1)
                                        (month proposed_date) of
                                   Inl _ \<Rightarrow> None
                                 | Inr d \<Rightarrow> Some d)
                           else Some proposed_date))"

text \<open>
  \<open>json.loads\<close> is a library function and a parameter of the model: it returns the
  members of the object under their names, or \<open>None\<close> when it raises. The members
  modelled are the textual ones; \<open>dict.get\<close> of a missing member and of an empty text
  are both falsy.
\<close>

type_synonym json_loads = "str \<Rightarrow> (string \<rightharpoonup> str) option"

definition truthy_member :: "(string \<rightharpoonup> str) \<Rightarrow> string \<Rightarrow> str option" where
  "truthy_member d k = (case d k of None \<Rightarrow> None | Some v \<Rightarrow> if v = [] then None else Some v)"

definition requote :: "str \<Rightarrow> str" where
  "requote s = map (\<lambda>c. if c = 39 then 34 else c) s"

definition starts_with_brace :: "str \<Rightarrow> bool" where
  "starts_with_brace s = (case s of [] \<Rightarrow> False | c # _ \<Rightarrow> c = 123)"

text \<open>
  \<open>_parse_serpapi_date\<close>: a text that starts with a brace is read as an object first, and
  its \<open>start_date\<close> or else its \<open>when\<close> member is parsed; when the object cannot be read
  or has neither member, the whole text is parsed as it is.
\<close>

definition parse_serpapi_date :: "unicode \<Rightarrow> json_loads \<Rightarrow> datetime \<Rightarrow> str \<Rightarrow> datetime option" where
  "parse_serpapi_date U loads now date_info =
     (if date_info = [] then None
      else
        let from_object =
              (if starts_with_brace date_info
               then (case loads (requote date_info) of
                       None \<Rightarrow> None
                     | Some date_dict \<Rightarrow>
                         (case truthy_member date_dict ''start_date'' of
                            Some s \<Rightarrow> Some s
                          | None \<Rightarrow> truthy_member date_dict ''when''))
               else None)
        in case from_object of
             Some date_str \<Rightarrow> parse_date_string U now date_str
           | None \<Rightarrow> parse_date_string U now date_info)"

text \<open>
  \<open>_clean_date_display\<close>: the \<open>when\<close> member of an object, or else its \<open>start_date\<close> after
  \<open>Starts: \<close>, or else the text itself.
\<close>

definition clean_date_display :: "json_loads \<Rightarrow> str \<Rightarrow> str" where
  "clean_date_display loads raw_date =
     (if raw_date = [] then lit ''Date not specified''
      else
        let from_object =
              (if starts_with_brace raw_date
               then (case loads (requote raw_date) of
                       None \<Rightarrow> None
                     | Some date_dict \<Rightarrow>
                         (case truthy_member date_dict ''when'' of
                            Some w \<Rightarrow> Some w
                          | None \<Rightarrow>
                              (case truthy_member date_dict ''start_date'' of
                                 Some s \<Rightarrow> Some (lit ''Starts: '' @ s)
                               | None \<Rightarrow> None)))
               else None)
        in case from_object of Some shown \<Rightarrow> shown | None \<Rightarrow> raw_date)"

section \<open>Event engine: provider records\<close>

record research_event =
  event_name :: str
  exact_date :: str
  exact_venue :: str
  location :: str
  category :: str
  confidence_score :: real
  source_url :: str
  posted_by :: str
  hype_score :: real

text \<open>
  A field of a provider record: missing or \<open>None\<close>, a text, or a list of texts. Any other
  value reaches the engine only through \<open>str(field) if field else ""\<close>, so it is
  represented by the text \<open>str\<close> gives for it, or by the empty text when it is falsy. A
  provider record is the dictionary of its fields under their names.
\<close>

datatype field = Absent | Text str | Texts "str list"

type_synonym event_data = "string \<rightharpoonup> field"

definition get_field :: "event_data \<Rightarrow> string \<Rightarrow> field" where
  "get_field d k = (case d k of None \<Rightarrow> Absent | Some v \<Rightarrow> v)"

definition get_field_default :: "event_data \<Rightarrow> string \<Rightarrow> str \<Rightarrow> field" where
  "get_field_default d k dflt = (case d k of None \<Rightarrow> Text dflt | Some v \<Rightarrow> v)"

fun safe_extract :: "field \<Rightarrow> str" where
  "safe_extract Absent = []"
| "safe_extract (Text s) = s"
| "safe_extract (Texts []) = []"
| "safe_extract (Texts (x # _)) = x"

subsection \<open>Cleaning the name\<close>

text \<open>
  \<open>_clean_event_name\<close> removes, one pattern after the other, what matches
  \<open>\s+at\s+.+$\<close>, \<open>\s+in\s+.+$\<close>, \<open>\s*-\s*.+$\<close>, \<open>\s*\|.*$\<close> and \<open>\s*@\s*.+$\<close>, letter case
  ignored. Each pattern runs to \<open>$\<close>, the end of the text or the place before a final
  newline, and \<open>.\<close> matches no newline; so a match at a position is decided by the text
  from there on, the leftmost matching position is cut, and a final newline stays.
\<close>

definition dot_plus_end :: "str \<Rightarrow> bool" where
  "dot_plus_end u =
     (let body = takeWhile (\<lambda>c. c \<noteq> 10) u; rest = dropWhile (\<lambda>c. c \<noteq> 10) u
      in body \<noteq> [] \<and> (rest = [] \<or> rest = [10]))"

definition dot_star_end :: "str \<Rightarrow> bool" where
  "dot_star_end u =
     (let rest = dropWhile (\<lambda>c. c \<noteq> 10) u in rest = [] \<or> rest = [10])"

text \<open>\<open>\s*\<close> followed by \<open>k\<close>, and \<open>\s+\<close> followed by \<open>k\<close>, with backtracking.\<close>

fun ws_star :: "unicode \<Rightarrow> (str \<Rightarrow> bool) \<Rightarrow> str \<Rightarrow> bool" where
  "ws_star U k [] = k []"
| "ws_star U k (c # cs) = (k (c # cs) \<or> (is_space U c \<and> ws_star U k cs))"

definition ws_plus :: "unicode \<Rightarrow> (str \<Rightarrow> bool) \<Rightarrow> str \<Rightarrow> bool" where
  "ws_plus U k u = (case u of [] \<Rightarrow> False | c # cs \<Rightarrow> is_space U c \<and> ws_star U k cs)"

text \<open>
  A pattern letter under \<open>re.IGNORECASE\<close>: an ASCII character matches when its lowercase
  is the letter, any other character when the database says so.
\<close>

definition letter_ci :: "unicode \<Rightarrow> int \<Rightarrow> int \<Rightarrow> bool" where
  "letter_ci U p c = (if is_ascii c then lower_char c = p else ci_match U p c)"

fun word_ci :: "unicode \<Rightarrow> str \<Rightarrow> (str \<Rightarrow> bool) \<Rightarrow> str \<Rightarrow> bool" where
  "word_ci U [] k u = k u"
| "word_ci U (p # ps) k [] = False"
| "word_ci U (p # ps) k (c # cs) = (letter_ci U p c \<and> word_ci U ps k cs)"

definition symbol :: "int \<Rightarrow> (str \<Rightarrow> bool) \<Rightarrow> str \<Rightarrow> bool" where
  "symbol x k u = (case u of [] \<Rightarrow> False | c # cs \<Rightarrow> c = x \<and> k cs)"

definition match_at :: "unicode \<Rightarrow> str \<Rightarrow> bool" where
  "match_at U = ws_plus U (word_ci U (lit ''at'') (ws_plus U dot_plus_end))"

definition match_in :: "unicode \<Rightarrow> str \<Rightarrow> bool" where
  "match_in U = ws_plus U (word_ci U (lit ''in'') (ws_plus U dot_plus_end))"

definition match_dash :: "unicode \<Rightarrow> str \<Rightarrow> bool" where
  "match_dash U = ws_star U (symbol 45 (ws_star U dot_plus_end))"

definition match_bar :: "unicode \<Rightarrow> str \<Rightarrow> bool" where
  "match_bar U = ws_star U (symbol 124 dot_star_end)"

definition match_at_sign :: "unicode \<Rightarrow> str \<Rightarrow> bool" where
  "match_at_sign U = ws_star U (symbol 64 (ws_star U dot_plus_end))"

fun cut_match :: "(str \<Rightarrow> bool) \<Rightarrow> str \<Rightarrow> str" where
  "cut_match m [] = []"
| "cut_match m (c # cs) =
     (if m (c # cs) then (if last (c # cs) = 10 then [10] else [])
      else c # cut_match m cs)"

definition patterns_to_remove :: "unicode \<Rightarrow> (str \<Rightarrow> bool) list" where
  "patterns_to_remove U = [match_at U, match_in U, match_dash U, match_bar U, match_at_sign U]"

definition clean_event_name :: "unicode \<Rightarrow> str \<Rightarrow> str" where
  "clean_event_name U title =
     (if title = [] then lit ''Event''
      else
        let clean_name = strip U (collapse_ws U (foldl (\<lambda>name pattern. cut_match pattern name)
                                                       title (patterns_to_remove U)))
        in if clean_name \<noteq> [] then clean_name else title)"

subsection \<open>Venue, location and category\<close>

definition extract_venue :: "unicode \<Rightarrow> str \<Rightarrow> str" where
  "extract_venue U address =
     (if address = [] then lit ''Various Venues''
      else let venue = strip U (first_piece (lit '','') address)
           in if length venue > 3 then venue else lit ''Various Venues'')"

definition extract_location :: "unicode \<Rightarrow> str \<Rightarrow> str" where
  "extract_location U address =
     (if address = [] then lit ''Location not specified''
      else let parts = split_on (lit '','') address
           in if length parts > 1 then strip U (last parts) else address)"

definition categories_table :: "(str \<times> str list) list" where
  "categories_table = map (\<lambda>(name, keywords). (lit name, map lit keywords))
     [(''music'', [''concert'', ''music'', ''dj'', ''band'', ''live music'']),
      (''sports'', [''sports'', ''game'', ''match'', ''tournament'']),
      (''arts'', [''art'', ''theater'', ''exhibition'', ''gallery'']),
      (''food'', [''food'', ''drink'', ''culinary'', ''wine'']),
      (''festival'', [''festival'', ''cultural'']),
      (''conference'', [''conference'', ''summit'', ''workshop''])]"

definition classify_event_type :: "unicode \<Rightarrow> str \<Rightarrow> str" where
  "classify_event_type U text =
     (if text = [] then lit ''other''
      else case find (\<lambda>(name, keywords). \<exists>keyword \<in> set keywords. contains keyword (lower U text))
                     categories_table of
             None \<Rightarrow> lit ''other''
           | Some (name, keywords) \<Rightarrow> name)"

subsection \<open>Validation, deduplication key and hype score\<close>

definition generic_names :: "str list" where
  "generic_names = map lit [''event'', ''events'', ''unknown'', ''unknown event'']"

definition is_valid_event :: "unicode \<Rightarrow> research_event \<Rightarrow> bool" where
  "is_valid_event U event =
     (if event_name event = [] \<or> length (strip U (event_name event)) < 3 then False
      else if lower U (event_name event) \<in> set generic_names then False
      else True)"

text \<open>
  \<open>_create_event_key\<close>. \<open>event.exact_date.split()[0]\<close> raises \<open>IndexError\<close> on a date text
  that is not empty but has no token.
\<close>

definition create_event_key :: "unicode \<Rightarrow> research_event \<Rightarrow> py_error + str" where
  "create_event_key U event =
     (let normalized_name = strip U (collapse_ws U (remove_punct U (lower U (event_name event))))
      in if exact_date event \<noteq> []
         then (case split_ws U (exact_date event) of
                 [] \<Rightarrow> Inl IndexError
               | date_part # _ \<Rightarrow> Inr (normalized_name @ lit ''_'' @ date_part))
         else Inr (normalized_name @ lit ''_'' @ lit ''nodate''))"

definition hype_keywords :: "str list" where
  "hype_keywords = map lit
                   [''festival'', ''concert'', ''championship'', ''tournament'', ''expo'',
                    ''summit'', ''conference'', ''awards'', ''gala'', ''premiere'']"

definition prestigious_venues :: "str list" where
  "prestigious_venues = map lit [''stadium'', ''arena'', ''center'', ''garden'', ''hall'']"

definition category_weights :: "rounding \<Rightarrow> str \<rightharpoonup> real" where
  "category_weights rnd =
     [lit ''music'' \<mapsto> rnd (3/10), lit ''festival'' \<mapsto> rnd (4/10),
      lit ''sports'' \<mapsto> rnd (35/100), lit ''conference'' \<mapsto> rnd (2/10),
      lit ''arts'' \<mapsto> rnd (25/100), lit ''food'' \<mapsto> rnd (15/100)]"

definition calculate_hype_score :: "unicode \<Rightarrow> rounding \<Rightarrow> research_event \<Rightarrow> real" where
  "calculate_hype_score U rnd event =
     (let name_lower = lower U (event_name event);
          score1 = foldl (\<lambda>score keyword.
                     if contains keyword name_lower then fadd rnd score (rnd (1/10)) else score)
                     0 hype_keywords;
          venue_lower = lower U (exact_venue event);
          score2 = foldl (\<lambda>score venue.
                     if contains venue venue_lower then fadd rnd score (rnd (15/100)) else score)
                     score1 prestigious_venues;
          score3 = fadd rnd score2
                     (case category_weights rnd (category event) of
                        None \<Rightarrow> rnd (1/10) | Some weight \<Rightarrow> weight)
      in min 1 score3)"

text \<open>
  \<open>list.sort(key=..., reverse=True)\<close> is a stable sort into descending order of the key:
  elements with equal keys keep their order. It is the stable insertion sort of the
  library on the negated key.
\<close>

definition sort_descending :: "('a \<Rightarrow> real) \<Rightarrow> 'a list \<Rightarrow> 'a list" where
  "sort_descending key xs = sort_key (\<lambda>x. - key x) xs"

definition score_events_by_hype ::
    "unicode \<Rightarrow> rounding \<Rightarrow> research_event list \<Rightarrow> research_event list" where
  "score_events_by_hype U rnd events =
     sort_descending hype_score
       (map (\<lambda>event. event\<lparr>hype_score := calculate_hype_score U rnd event\<rparr>) events)"

subsection \<open>The world outside the engine\<close>

text \<open>
  What a run takes from outside: the Unicode database, the rounding of float
  arithmetic, the clock, the library functions \<open>json.loads\<close> and \<open>datetime.strptime\<close> (\<open>None\<close> when they raise), and
  the search provider. The provider answers the \<open>i\<close>-th request of the run, made with a
  query, by raising (transport error, timeout, malformed body) or with a status code
  and the records under \<open>events_results\<close> (none when the key is missing). The clock is
  read as one instant for the whole run.
\<close>

datatype http_reply = Raised | Reply int "event_data list"

record world =
  db :: unicode
  rounding_of :: rounding
  clock :: datetime
  json :: json_loads
  strptime :: "str \<Rightarrow> string \<Rightarrow> datetime option"
  serpapi :: "nat \<Rightarrow> str \<Rightarrow> http_reply"

definition parse_event_data_clean :: "world \<Rightarrow> event_data \<Rightarrow> research_event option" where
  "parse_event_data_clean w data =
     (let title = safe_extract (get_field data ''title'');
          raw_date = safe_extract (get_field_default data ''date'' (lit ''Date not specified''));
          address = safe_extract (get_field_default data ''address'' []);
          link = safe_extract (get_field_default data ''link'' [])
      in if title = [] \<or> title = lit ''Unknown Event'' then None
         else
           let clean_date_display = clean_date_display (json w) raw_date;
               clean_name = clean_event_name (db w) title
           in Some \<lparr>event_name = clean_name,
                     exact_date = clean_date_display,
                     exact_venue = extract_venue (db w) address,
                     location = extract_location (db w) address,
                     category = classify_event_type (db w) clean_name,
                     confidence_score = rounding_of w (8/10),
                     source_url = link,
                     posted_by = lit ''Event Search'',
                     hype_score = 1/2\<rparr>)"

text \<open>
  \<open>_fetch_serpapi_events\<close>: one request; a failure of any kind is an empty list. Records
  that do not parse or are not valid are dropped.
\<close>

definition fetch_serpapi_events :: "world \<Rightarrow> nat \<Rightarrow> str \<Rightarrow> nat \<Rightarrow> research_event list" where
  "fetch_serpapi_events w i query max_records =
     (case serpapi w i query of
        Raised \<Rightarrow> []
      | Reply status_code events_results \<Rightarrow>
          if status_code = 200
          then filter (is_valid_event (db w))
                 (List.map_filter (parse_event_data_clean w) (take max_records events_results))
          else [])"

subsection \<open>Collecting events\<close>

text \<open>
  The inner loop of \<open>_fetch_events_with_date_filter\<close> over the events of one query: an
  event is kept when its date parses, lies in the inclusive range and its key has not
  been seen in the run. The state is the list \<open>all_events\<close> and the set \<open>seen_events\<close>.
\<close>

type_synonym collected = "research_event list \<times> str set"

fun merge_events :: "world \<Rightarrow> datetime \<Rightarrow> datetime \<Rightarrow> research_event list \<Rightarrow> collected
                       \<Rightarrow> py_error + collected" where
  "merge_events w start_dt end_dt [] (all_events, seen_events) = Inr (all_events, seen_events)"
| "merge_events w start_dt end_dt (event # events) (all_events, seen_events) =
     (case parse_serpapi_date (db w) (json w) (clock w) (exact_date event) of
        None \<Rightarrow> merge_events w start_dt end_dt events (all_events, seen_events)
      | Some event_start_dt \<Rightarrow>
          if dt_le start_dt event_start_dt \<and> dt_le event_start_dt end_dt
          then (case create_event_key (db w) event of
                  Inl e \<Rightarrow> Inl e
                | Inr event_key \<Rightarrow>
                    if event_key \<notin> seen_events
                    then merge_events w start_dt end_dt events
                           (all_events @ [event], insert event_key seen_events)
                    else merge_events w start_dt end_dt events (all_events, seen_events))
          else merge_events w start_dt end_dt events (all_events, seen_events))"

text \<open>
  The outer loop over the queries. It stops before a query when twice the requested
  number of events has been collected. The result carries the queries sent to the
  provider, in order, and the events collected or the exception that ended the loop.
\<close>

fun fetch_loop :: "world \<Rightarrow> datetime \<Rightarrow> datetime \<Rightarrow> int \<Rightarrow> str list \<Rightarrow> str list
                     \<Rightarrow> collected \<Rightarrow> str list \<times> (py_error + research_event list)" where
  "fetch_loop w start_dt end_dt max_results [] sent (all_events, seen_events) =
     (sent, Inr all_events)"
| "fetch_loop w start_dt end_dt max_results (query # queries) sent (all_events, seen_events) =
     (if int (length all_events) \<ge> max_results * 2 then (sent, Inr all_events)
      else
        let events = fetch_serpapi_events w (length sent) query 10
        in case merge_events w start_dt end_dt events (all_events, seen_events) of
             Inl e \<Rightarrow> (sent @ [query], Inl e)
           | Inr collected \<Rightarrow>
               fetch_loop w start_dt end_dt max_results queries (sent @ [query]) collected)"

definition fetch_events_with_date_filter ::
    "world \<Rightarrow> str list \<Rightarrow> datetime \<Rightarrow> datetime \<Rightarrow> int
       \<Rightarrow> str list \<times> (py_error + research_event list)" where
  "fetch_events_with_date_filter w queries start_dt end_dt max_results =
     fetch_loop w start_dt end_dt max_results queries [] ([], {})"

subsection \<open>The user's dates and the queries\<close>

definition user_date_formats :: "string list" where
  "user_date_formats = [''%Y-%m-%d'', ''%m/%d/%Y'', ''%d/%m/%Y'', ''%B %d, %Y'', ''%b %d, %Y'',
                        ''%m-%d-%Y'']"

text \<open>
  \<open>_parse_user_date\<close>: the first format that \<open>strptime\<close> accepts; otherwise the first
  month name of the table found in the text, with the first one or two digits as the
  day (1 when there is none) and the first \<open>20dd\<close> as the year (the current year when
  there is none). An impossible date raises inside the function and gives \<open>None\<close>.
\<close>

definition parse_user_date :: "world \<Rightarrow> str \<Rightarrow> datetime option" where
  "parse_user_date w date_str =
     (case List.map_filter (strptime w (strip (db w) date_str)) user_date_formats of
        dt # _ \<Rightarrow> Some dt
      | [] \<Rightarrow>
          let clean_date = strip (db w) (lower (db w) date_str);
              current_year = year (clock w)
          in case find (\<lambda>(month_name, month_num). contains month_name clean_date) months of
               None \<Rightarrow> None
             | Some (month_name, month_num) \<Rightarrow>
                 let d = (case search_digits12 (db w) clean_date of
                            Some day_match \<Rightarrow> int_of_digits (db w) day_match | None \<Rightarrow> 1);
                     y = (case search_year20 (db w) clean_date of
                            Some year_match \<Rightarrow> int_of_digits (db w) year_match | None \<Rightarrow> current_year)
                 in (case mk_datetime y month_num d of Inl _ \<Rightarrow> None | Inr dt \<Rightarrow> Some dt))"

fun spaced :: "str list \<Rightarrow> str" where
  "spaced [] = []"
| "spaced [x] = x"
| "spaced (x # y # zs) = x @ lit '' '' @ spaced (y # zs)"

definition strftime_Y :: "datetime \<Rightarrow> str" where
  "strftime_Y dt = str_int (year dt)"

definition next_month :: "datetime \<Rightarrow> py_error + datetime" where
  "next_month current =
     (if month current = 12 then replace_year_month current (year current + 1) 1
      else replace_year_month current (year current) (month current + 1))"

definition months_left :: "datetime \<Rightarrow> nat" where
  "months_left current =
     (if 1 \<le> year current \<and> year current \<le> 9999 \<and> 1 \<le> month current \<and> month current \<le> 12
      then nat (120013 - (12 * year current + month current))
      else 120014)"

text \<open>
  The \<open>while current <= end_dt\<close> loop of \<open>_build_date_specific_queries\<close>: four queries
  per month. \<open>replace\<close> keeps the day of \<open>start_dt\<close> and raises \<open>ValueError\<close> when the next
  month has no such day.
\<close>

function month_queries :: "str \<Rightarrow> datetime \<Rightarrow> datetime \<Rightarrow> py_error + str list" where
  "month_queries place end_dt current =
     (if dt_le current end_dt
      then (let month_year = spaced [strftime_B current, strftime_Y current];
                month_name = strftime_B current;
                queries = [spaced [lit ''events'', place, month_year],
                           spaced [month_name, lit ''events'', place, str_int (year current)],
                           spaced [lit ''upcoming events'', place, month_year],
                           spaced [lit ''things to do'', place, month_name, str_int (year current)]]
            in case next_month current of
                 Inl e \<Rightarrow> Inl e
               | Inr later \<Rightarrow>
                   (case month_queries place end_dt later of
                      Inl e \<Rightarrow> Inl e
                    | Inr rest \<Rightarrow> Inr (queries @ rest)))
      else Inr [])"
  by pat_completeness auto
termination
proof (relation "measure (\<lambda>(place, end_dt, current). months_left current)")
  show "wf (measure (\<lambda>(place, end_dt, current). months_left current))" by simp
next
  fix place :: str and end_dt current later :: datetime
  assume "next_month current = Inr later"
  then have "months_left later < months_left current"
    by (auto simp: next_month_def replace_year_month_def valid_date_def months_left_def
             split: if_splits)
  then show "((place, end_dt, later), (place, end_dt, current))
             \<in> measure (\<lambda>(place, end_dt, current). months_left current)"
    by simp
qed

definition dedup_first :: "'a list \<Rightarrow> 'a list" where
  "dedup_first xs = rev (remdups (rev xs))"

definition build_date_specific_queries ::
    "str \<Rightarrow> str list \<Rightarrow> datetime \<Rightarrow> datetime \<Rightarrow> py_error + str list" where
  "build_date_specific_queries place categories start_dt end_dt =
     (case month_queries place end_dt start_dt of
        Inl e \<Rightarrow> Inl e
      | Inr monthly \<Rightarrow>
          let ranged = [spaced [lit ''events'', place, spaced [strftime_B start_dt, strftime_d start_dt],
                                lit ''to'',
                                spaced [strftime_B end_dt, strftime_d end_dt, strftime_Y end_dt]],
                        spaced [place, lit ''events'', str_int (year start_dt)],
                        spaced [lit ''upcoming events'', place, str_int (year start_dt)]];
              by_category = concat (map (\<lambda>c.
                        [spaced [c, lit ''events'', place, str_int (year start_dt)],
                         spaced [c, place, spaced [strftime_B start_dt, strftime_Y start_dt]]])
                      categories)
          in Inr (dedup_first (monthly @ ranged @ by_category)))"

subsection \<open>A discovery run for events\<close>

text \<open>
  \<open>xs[:n]\<close>: the first \<open>n\<close> elements, or all but the last \<open>-n\<close> when \<open>n\<close> is negative.
\<close>

definition py_prefix :: "int \<Rightarrow> 'a list \<Rightarrow> 'a list" where
  "py_prefix n xs = (if n \<ge> 0 then take (nat n) xs else take (length xs - nat (- n)) xs)"

text \<open>
  \<open>discover_events\<close>, with the key of the engine as an argument. Its \<open>try\<close> turns every
  exception into an empty result. The result carries the queries sent to the provider
  and the list returned to the caller.
\<close>

definition discover_events ::
    "world \<Rightarrow> str option \<Rightarrow> str \<Rightarrow> str \<Rightarrow> str \<Rightarrow> str list \<Rightarrow> int
       \<Rightarrow> str list \<times> research_event list" where
  "discover_events w serp_api_key place start_date end_date categories max_results =
     (if serp_api_key = None \<or> serp_api_key = Some [] then ([], [])
      else
        case (parse_user_date w start_date, parse_user_date w end_date) of
          (Some start_dt, Some end_dt) \<Rightarrow>
            (case build_date_specific_queries place categories start_dt end_dt of
               Inl e \<Rightarrow> ([], [])
             | Inr date_queries \<Rightarrow>
                 (case fetch_events_with_date_filter w date_queries start_dt end_dt max_results of
                    (sent, Inl e) \<Rightarrow> (sent, [])
                  | (sent, Inr filtered_events) \<Rightarrow>
                      let scored_events = score_events_by_hype (db w) (rounding_of w) filtered_events;
                          top_events = py_prefix max_results scored_events
                      in (sent, top_events)))
        | _ \<Rightarrow> ([], []))"

section \<open>Attendee engine: keywords and relevance (engines/attendee\_engine.py)\<close>

definition stop_words :: "str list" where
  "stop_words = map lit
                [''the'', ''and'', ''or'', ''but'', ''in'', ''on'', ''at'', ''to'', ''for'',
                 ''of'', ''with'', ''by'', ''a'', ''an'']"

text \<open>
  \<open>_extract_keywords\<close>. The fallback \<open>event_name.split()[0]\<close> indexes the tokens of the
  original name and raises \<open>IndexError\<close> when there is none.
\<close>

definition keyword_candidates :: "unicode \<Rightarrow> str \<Rightarrow> str list" where
  "keyword_candidates U name =
     map (lower U) (filter (\<lambda>word. lower U word \<notin> set stop_words \<and> length word > 2)
                           (split_ws U (blank_punct U name)))"

definition extract_keywords :: "unicode \<Rightarrow> str \<Rightarrow> py_error + str list" where
  "extract_keywords U name =
     (let keywords = keyword_candidates U name
      in if keywords \<noteq> [] then Inr keywords
         else (case split_ws U name of
                 [] \<Rightarrow> Inl IndexError
               | w # _ \<Rightarrow> Inr [lower U w]))"

definition engagement_phrases :: "str list" where
  "engagement_phrases = [lit ''attending'', lit ''going to'', lit ''see you at'',
                         lit ''excited for'', lit ''can'' @ [39] @ lit ''t wait for'']"

definition event_words :: "str list" where
  "event_words = map lit [''event'', ''concert'', ''festival'', ''show'', ''party'']"

text \<open>
  \<open>_calculate_relevance_score_fast\<close>. A loop that adds once and breaks at the first
  phrase found is an addition guarded by "some phrase occurs".
\<close>

definition calculate_relevance_score_fast ::
    "unicode \<Rightarrow> rounding \<Rightarrow> str \<Rightarrow> str \<Rightarrow> py_error + real" where
  "calculate_relevance_score_fast U rnd tweet_text name =
     (let text_lower = lower U tweet_text;
          event_lower = lower U name;
          score0 = (0 :: real);
          score1 = (if contains event_lower text_lower then fadd rnd score0 (rnd (6/10)) else score0)
      in case extract_keywords U name of
           Inl e \<Rightarrow> Inl e
         | Inr keywords \<Rightarrow>
             let matched_keywords = length (filter (\<lambda>keyword. contains keyword text_lower) keywords);
                 score2 = fadd rnd score1
                            (min (rnd (3/10)) (fmul rnd (of_nat matched_keywords) (rnd (1/10))));
                 score3 = (if \<exists>phrase \<in> set engagement_phrases. contains phrase text_lower
                           then fadd rnd score2 (rnd (1/10)) else score2);
                 score4 = (if \<exists>word \<in> set event_words. contains word text_lower
                           then fadd rnd score3 (rnd (5/100)) else score3)
             in Inr (min 1 score4))"

section \<open>Attendee engine: a discovery run\<close>

record research_attendee =
  username :: str
  display_name :: str
  bio :: str
  location :: str
  followers_count :: int
  verified :: bool
  confidence_score :: real
  engagement_type :: str
  post_content :: str
  post_date :: str
  post_link :: str
  relevance_score :: real

text \<open>
  What the social-search client returns. A tweet has its id, the id of its author, its
  text and the rendering of its creation time that the engine copies into \<open>post_date\<close>.
  A user has optional description, location, verified flag and follower count (absent
  when \<open>public_metrics\<close> or its \<open>followers_count\<close> is). A response has the tweets under
  \<open>data\<close> (none when \<open>data\<close> is \<open>None\<close>) and the users under \<open>includes\<close>, absent when
  \<open>includes\<close> is falsy or has no \<open>users\<close>.
\<close>

record tweet =
  tweet_id :: str
  author_id :: str
  tweet_text :: str
  created_at :: str

record twitter_user =
  user_id :: str
  user_username :: str
  user_name :: str
  user_description :: "str option"
  user_location :: "str option"
  user_verified :: "bool option"
  user_followers :: "int option"

record tweets_response =
  data :: "tweet list"
  includes_users :: "twitter_user list option"

text \<open>
  The gateway \<open>search_recent_tweets_safe\<close> of the client is a parameter: it answers the
  \<open>i\<close>-th search of the run, made with a query and a result hint, with a response or
  with \<open>None\<close> (denied by the rate limit, or failed).
\<close>

type_synonym gateway = "nat \<Rightarrow> str \<Rightarrow> int \<Rightarrow> tweets_response option"

definition detect_engagement_fast :: "unicode \<Rightarrow> str \<Rightarrow> str" where
  "detect_engagement_fast U body =
     (let text_lower = lower U body
      in if \<exists>word \<in> set [lit ''attending'', lit ''going to'', lit ''will be there'']. contains word text_lower
         then lit ''confirmed_attendance''
         else if \<exists>word \<in> set [lit ''excited for'', lit ''can'' @ [39] @ lit ''t wait for''].
                   contains word text_lower
         then lit ''excited''
         else lit ''discussing'')"

definition or_empty :: "str option \<Rightarrow> str" where
  "or_empty v = (case v of None \<Rightarrow> [] | Some s \<Rightarrow> s)"

definition make_attendee ::
    "unicode \<Rightarrow> rounding \<Rightarrow> twitter_user \<Rightarrow> tweet \<Rightarrow> real \<Rightarrow> research_attendee" where
  "make_attendee U rnd u t score =
     \<lparr>username = lit ''@'' @ user_username u,
      display_name = user_name u,
      bio = or_empty (user_description u),
      location = or_empty (user_location u),
      followers_count = (case user_followers u of None \<Rightarrow> 0 | Some n \<Rightarrow> n),
      verified = (case user_verified u of None \<Rightarrow> False | Some b \<Rightarrow> b),
      confidence_score = rnd (7/10),
      engagement_type = detect_engagement_fast U (tweet_text t),
      post_content = (if length (tweet_text t) > 100 then take 100 (tweet_text t) @ lit ''...''
                      else tweet_text t),
      post_date = created_at t,
      post_link = lit ''https://twitter.com/'' @ user_username u @ lit ''/status/'' @ tweet_id t,
      relevance_score = score\<rparr>"

text \<open>
  \<open>_process_tweets_fast\<close>: the dictionary of users keeps the last user of each id. A tweet
  whose author is known is scored, and kept when the score reaches the threshold
  \<open>0.05\<close>; the exception of the scoring ends the loop.
\<close>

definition users_dict :: "twitter_user list \<Rightarrow> str \<rightharpoonup> twitter_user" where
  "users_dict users = map_of (rev (map (\<lambda>u. (user_id u, u)) users))"

fun process_tweets :: "unicode \<Rightarrow> rounding \<Rightarrow> (str \<rightharpoonup> twitter_user) \<Rightarrow> str \<Rightarrow> tweet list
                         \<Rightarrow> py_error + research_attendee list" where
  "process_tweets U rnd users name [] = Inr []"
| "process_tweets U rnd users name (t # ts) =
     (case users (author_id t) of
        None \<Rightarrow> process_tweets U rnd users name ts
      | Some u \<Rightarrow>
          (case calculate_relevance_score_fast U rnd (tweet_text t) name of
             Inl e \<Rightarrow> Inl e
           | Inr score \<Rightarrow>
               (case process_tweets U rnd users name ts of
                  Inl e \<Rightarrow> Inl e
                | Inr attendees \<Rightarrow>
                    if score \<ge> rnd (5/100) then Inr (make_attendee U rnd u t score # attendees)
                    else Inr attendees)))"

definition process_tweets_fast :: "unicode \<Rightarrow> rounding \<Rightarrow> tweets_response \<Rightarrow> str
                                     \<Rightarrow> py_error + research_attendee list" where
  "process_tweets_fast U rnd tweets name =
     (case includes_users tweets of
        None \<Rightarrow> Inr []
      | Some users \<Rightarrow> process_tweets U rnd (users_dict users) name (data tweets))"

text \<open>
  What the attendee engine takes from outside: the Unicode database, the rounding of
  float arithmetic and the gateway.
\<close>

record setting =
  chars :: unicode
  roundoff :: rounding
  search :: gateway

definition search_and_process :: "setting \<Rightarrow> nat \<Rightarrow> str \<Rightarrow> str \<Rightarrow> int
                                    \<Rightarrow> py_error + research_attendee list" where
  "search_and_process E i query name max_results =
     (case search E i query (min max_results 20) of
        None \<Rightarrow> Inr []
      | Some tweets \<Rightarrow>
          if data tweets = [] then Inr []
          else process_tweets_fast (chars E) (roundoff E) tweets name)"

subsection \<open>The queries of the three phases\<close>

definition clean_search_name :: "unicode \<Rightarrow> str \<Rightarrow> str" where
  "clean_search_name U name =
     (if name = [] then lit ''event''
      else let cleaned = strip U (collapse_ws U (blank_punct U name))
           in if cleaned \<noteq> [] then cleaned else lit ''event'')"

definition quoted :: "str \<Rightarrow> str" where
  "quoted s = [34] @ s @ [34]"

definition generate_exact_queries :: "unicode \<Rightarrow> str \<Rightarrow> str option \<Rightarrow> (str \<times> str) list" where
  "generate_exact_queries U name event_date =
     (let clean_name = clean_search_name U name;
          queries = [(lit ''exact'', quoted clean_name),
                     (lit ''event'', quoted clean_name @ lit '' event''),
                     (lit ''concert'', quoted clean_name @ lit '' concert'')]
      in case event_date of
           None \<Rightarrow> queries
         | Some d \<Rightarrow> if d = [] then queries else queries @ [(lit ''dated'', quoted clean_name @ lit '' '' @ d)])"

definition generate_smart_keyword_queries :: "unicode \<Rightarrow> str \<Rightarrow> py_error + (str \<times> str) list" where
  "generate_smart_keyword_queries U name =
     (case extract_keywords U name of
        Inl e \<Rightarrow> Inl e
      | Inr [] \<Rightarrow> Inr []
      | Inr [k0] \<Rightarrow> Inr [(lit ''main_keyword'', quoted k0)]
      | Inr (k0 # k1 # _) \<Rightarrow>
          Inr [(lit ''keywords'', quoted (k0 @ lit '' '' @ k1)), (lit ''main_keyword'', quoted k0)])"

definition generate_broad_queries :: "unicode \<Rightarrow> str \<Rightarrow> py_error + (str \<times> str) list" where
  "generate_broad_queries U name =
     (case extract_keywords U name of
        Inl e \<Rightarrow> Inl e
      | Inr [] \<Rightarrow> Inr []
      | Inr [k0] \<Rightarrow> Inr [(lit ''broad'', k0), (lit ''very_broad'', k0 @ lit '' OR '' @ k0)]
      | Inr (k0 # k1 # _) \<Rightarrow> Inr [(lit ''broad'', k0), (lit ''very_broad'', k0 @ lit '' OR '' @ k1)])"

subsection \<open>Collecting attendees\<close>

text \<open>
  The state of \<open>_guaranteed_find_attendees\<close>: the list \<open>all_attendees\<close>, the set
  \<open>seen_usernames\<close> and the calls made to the gateway so far, each with its query and
  the result hint the gateway received. An attendee is added when the username is new
  and the list is still shorter than \<open>max_results\<close>.
\<close>

type_synonym gathered = "research_attendee list \<times> str set"

type_synonym call = "str \<times> int"

fun add_attendees :: "int \<Rightarrow> research_attendee list \<Rightarrow> gathered \<Rightarrow> gathered" where
  "add_attendees max_results [] (all_attendees, seen_usernames) = (all_attendees, seen_usernames)"
| "add_attendees max_results (attendee # attendees) (all_attendees, seen_usernames) =
     (if username attendee \<notin> seen_usernames \<and> int (length all_attendees) < max_results
      then add_attendees max_results attendees
             (all_attendees @ [attendee], insert (username attendee) seen_usernames)
      else add_attendees max_results attendees (all_attendees, seen_usernames))"

text \<open>
  One phase: the loop over its queries, which breaks before a query when the list has
  reached \<open>max_results\<close>. \<open>hint\<close> is the number of results the phase asks for. The
  result carries the calls made and the new state, or the exception that ended the
  loop.
\<close>

fun phase :: "setting \<Rightarrow> str \<Rightarrow> int \<Rightarrow> int \<Rightarrow> (str \<times> str) list
                \<Rightarrow> call list \<Rightarrow> gathered \<Rightarrow> call list \<times> (py_error + gathered)" where
  "phase E name max_results hint [] sent (all_attendees, seen_usernames) =
     (sent, Inr (all_attendees, seen_usernames))"
| "phase E name max_results hint ((query_type, query) # queries) sent
         (all_attendees, seen_usernames) =
     (if int (length all_attendees) \<ge> max_results
      then (sent, Inr (all_attendees, seen_usernames))
      else
        case search_and_process E (length sent) query name hint of
          Inl e \<Rightarrow> (sent @ [(query, min hint 20)], Inl e)
        | Inr attendees \<Rightarrow>
            phase E name max_results hint queries (sent @ [(query, min hint 20)])
              (add_attendees max_results attendees (all_attendees, seen_usernames)))"

text \<open>
  \<open>_guaranteed_find_attendees\<close>: at most 3 exact queries, then, only while the list is
  short, at most 3 keyword queries and at most 2 broad queries; the list is then sorted
  by relevance, highest first.
\<close>

definition phase2 :: "setting \<Rightarrow> str \<Rightarrow> int \<Rightarrow> call list \<Rightarrow> gathered
                        \<Rightarrow> call list \<times> (py_error + gathered)" where
  "phase2 E name max_results sent state =
     (if int (length (fst state)) < max_results
      then (case generate_smart_keyword_queries (chars E) name of
              Inl e \<Rightarrow> (sent, Inl e)
            | Inr keyword_queries \<Rightarrow>
                phase E name max_results (max_results * 2) (take 3 keyword_queries)
                  sent state)
      else (sent, Inr state))"

definition phase3 :: "setting \<Rightarrow> str \<Rightarrow> int \<Rightarrow> call list \<Rightarrow> gathered
                        \<Rightarrow> call list \<times> (py_error + gathered)" where
  "phase3 E name max_results sent state =
     (if int (length (fst state)) < max_results
      then (case generate_broad_queries (chars E) name of
              Inl e \<Rightarrow> (sent, Inl e)
            | Inr broad_queries \<Rightarrow>
                phase E name max_results max_results (take 2 broad_queries) sent state)
      else (sent, Inr state))"

definition collect_attendees :: "setting \<Rightarrow> str \<Rightarrow> str option \<Rightarrow> int
                                   \<Rightarrow> call list \<times> (py_error + gathered)" where
  "collect_attendees E name event_date max_results =
     (case phase E name max_results (max_results * 3)
             (take 3 (generate_exact_queries (chars E) name event_date)) [] ([], {}) of
        (sent1, Inl e) \<Rightarrow> (sent1, Inl e)
      | (sent1, Inr state1) \<Rightarrow>
          (case phase2 E name max_results sent1 state1 of
             (sent2, Inl e) \<Rightarrow> (sent2, Inl e)
           | (sent2, Inr state2) \<Rightarrow> phase3 E name max_results sent2 state2))"

definition guaranteed_find_attendees :: "setting \<Rightarrow> str \<Rightarrow> str option \<Rightarrow> int
                                           \<Rightarrow> call list \<times> (py_error + research_attendee list)" where
  "guaranteed_find_attendees E name event_date max_results =
     (case collect_attendees E name event_date max_results of
        (sent, Inl e) \<Rightarrow> (sent, Inl e)
      | (sent, Inr (all_attendees, seen_usernames)) \<Rightarrow>
          (sent, Inr (sort_descending relevance_score all_attendees)))"

text \<open>
  \<open>discover_attendees\<close>, with \<open>is_operational()\<close> of the client as an argument. Its \<open>try\<close>
  turns every exception into an empty result. The result carries the calls made to
  the gateway and the list returned to the caller.
\<close>

definition discover_attendees :: "setting \<Rightarrow> bool \<Rightarrow> str \<Rightarrow> str option \<Rightarrow> int
                                    \<Rightarrow> call list \<times> research_attendee list" where
  "discover_attendees E operational name event_date max_results =
     (if \<not> operational then ([], [])
      else case guaranteed_find_attendees E name event_date max_results of
             (sent, Inl e) \<Rightarrow> (sent, [])
           | (sent, Inr relevant_attendees) \<Rightarrow> (sent, py_prefix max_results relevant_attendees))"

section \<open>What a run accumulated\<close>

text \<open>
  The claims speak of the items a run accumulated and of the records the provider
  produced. \<open>accumulated_events\<close> is the list \<open>all_events\<close> with which collection ended
  (empty when the run ended before or by an exception); \<open>rescored\<close> is the event as
  \<open>_score_events_by_hype\<close> stores it; \<open>provider_events\<close> are the valid events read from
  the provider's answers to the queries sent, in the order of arrival; \<open>in_range\<close> is the
  date filter.
\<close>

definition accumulated_events ::
    "world \<Rightarrow> str option \<Rightarrow> str \<Rightarrow> str \<Rightarrow> str \<Rightarrow> str list \<Rightarrow> int
       \<Rightarrow> research_event list" where
  "accumulated_events w serp_api_key place start_date end_date categories max_results =
     (if serp_api_key = None \<or> serp_api_key = Some [] then []
      else
        case (parse_user_date w start_date, parse_user_date w end_date) of
          (Some start_dt, Some end_dt) \<Rightarrow>
            (case build_date_specific_queries place categories start_dt end_dt of
               Inl e \<Rightarrow> []
             | Inr date_queries \<Rightarrow>
                 (case fetch_events_with_date_filter w date_queries start_dt end_dt max_results of
                    (sent, Inl e) \<Rightarrow> []
                  | (sent, Inr filtered_events) \<Rightarrow> filtered_events))
        | _ \<Rightarrow> [])"

definition rescored :: "world \<Rightarrow> research_event \<Rightarrow> research_event" where
  "rescored w event = event\<lparr>hype_score := calculate_hype_score (db w) (rounding_of w) event\<rparr>"

fun provider_events_from :: "world \<Rightarrow> nat \<Rightarrow> str list \<Rightarrow> research_event list" where
  "provider_events_from w i [] = []"
| "provider_events_from w i (query # queries) =
     fetch_serpapi_events w i query 10 @ provider_events_from w (Suc i) queries"

definition provider_events :: "world \<Rightarrow> str list \<Rightarrow> research_event list" where
  "provider_events w sent = provider_events_from w 0 sent"

definition in_range :: "world \<Rightarrow> datetime \<Rightarrow> datetime \<Rightarrow> research_event \<Rightarrow> bool" where
  "in_range w start_dt end_dt event =
     (case parse_serpapi_date (db w) (json w) (clock w) (exact_date event) of
        None \<Rightarrow> False
      | Some event_start_dt \<Rightarrow> dt_le start_dt event_start_dt \<and> dt_le event_start_dt end_dt)"

text \<open>
  Deduplication as the specification words it: going through the items in order, an
  item whose key has been seen is rejected, any other is accepted and its key
  registered.
\<close>

fun first_seen_by :: "('a \<Rightarrow> 'k) \<Rightarrow> 'k set \<Rightarrow> 'a list \<Rightarrow> 'a list" where
  "first_seen_by key seen [] = []"
| "first_seen_by key seen (x # xs) =
     (if key x \<in> seen then first_seen_by key seen xs
      else x # first_seen_by key (insert (key x) seen) xs)"

text \<open>
  The same for attendees: the list \<open>all_attendees\<close> with which collection ended, and the
  attendees read from the gateway's answers to the calls made, in the order of arrival
  (none from an answer whose processing raised).
\<close>

definition accumulated_attendees ::
    "setting \<Rightarrow> bool \<Rightarrow> str \<Rightarrow> str option \<Rightarrow> int \<Rightarrow> research_attendee list" where
  "accumulated_attendees E operational name event_date max_results =
     (if \<not> operational then []
      else case collect_attendees E name event_date max_results of
             (sent, Inl e) \<Rightarrow> []
           | (sent, Inr (all_attendees, seen_usernames)) \<Rightarrow> all_attendees)"

fun gateway_attendees_from :: "setting \<Rightarrow> str \<Rightarrow> nat \<Rightarrow> call list
                                 \<Rightarrow> research_attendee list" where
  "gateway_attendees_from E name i [] = []"
| "gateway_attendees_from E name i ((query, hint) # calls) =
     (case search_and_process E i query name hint of
        Inl e \<Rightarrow> []
      | Inr attendees \<Rightarrow> attendees)
     @ gateway_attendees_from E name (Suc i) calls"

definition gateway_attendees :: "setting \<Rightarrow> str \<Rightarrow> call list
                                   \<Rightarrow> research_attendee list" where
  "gateway_attendees E name sent = gateway_attendees_from E name 0 sent"

text \<open>
  The invariant of collection: what holds of the outcome of a stretch of the run that
  makes at most \<open>n\<close> searches, starting after the calls \<open>sent\<close> with the list
  \<open>all_attendees\<close>. The calls are extended, and when the stretch ends without an
  exception, the list is extended by attendees read from the new answers, usernames
  stay distinct and registered, and the list does not grow beyond \<open>max_results\<close>.
\<close>

definition collected_from ::
    "setting \<Rightarrow> str \<Rightarrow> int \<Rightarrow> nat \<Rightarrow> call list \<Rightarrow> research_attendee list
       \<Rightarrow> call list \<times> (py_error + gathered) \<Rightarrow> bool" where
  "collected_from E name max_results n sent all_attendees outcome =
     (\<exists>new. fst outcome = sent @ new \<and> length new \<le> n \<and>
        (\<forall>all' seen'. snd outcome = Inr (all', seen') \<longrightarrow>
           set all' \<subseteq> set all_attendees
                        \<union> set (gateway_attendees_from E name (length sent) new)
           \<and> username ` set all' \<subseteq> seen' \<and> distinct (map username all')
           \<and> prefix all_attendees all'
           \<and> int (length all') \<le> max (int (length all_attendees)) max_results))"

section \<open>Sample worlds\<close>

text \<open>
  A provider with one answer, used to run the definitions on concrete input: two
  records of the same event dated \<open>Nov 15\<close>, one dated \<open>Dec 1\<close>, one whose date is no date,
  one whose name is \<open>Events\<close>, and two more in November that get equal scores. The
  clock stands at 4 November 2024, 10:00.
\<close>

definition sample_records :: "event_data list" where
  "sample_records =
     [[''title'' \<mapsto> Text (lit ''Chess Club''), ''date'' \<mapsto> Text (lit ''Sat, Nov 16, 8 PM'')],
      [''title'' \<mapsto> Text (lit ''Jazz Gala at Zilker''), ''date'' \<mapsto> Text (lit ''Nov 15''),
       ''address'' \<mapsto> Texts [lit ''Civic Arena, Austin'']],
      [''title'' \<mapsto> Text (lit ''Yule Expo''), ''date'' \<mapsto> Text (lit ''Dec 1'')],
      [''title'' \<mapsto> Text (lit ''Jazz Gala | Tickets''), ''date'' \<mapsto> Text (lit ''Nov 15'')],
      [''title'' \<mapsto> Text (lit ''Open Mic''), ''date'' \<mapsto> Text (lit ''weekly'')],
      [''title'' \<mapsto> Text (lit ''Events in Austin''), ''date'' \<mapsto> Text (lit ''Nov 20'')],
      [''title'' \<mapsto> Text (lit ''Book Fair''), ''date'' \<mapsto> Text (lit ''Nov 18'')]]"

definition sample_strptime :: "str \<Rightarrow> string \<Rightarrow> datetime option" where
  "sample_strptime s fmt =
     (if fmt = ''%Y-%m-%d'' \<and> s = lit ''2024-11-01''
      then Some \<lparr>year = 2024, month = 11, day = 1, tod = 0\<rparr>
      else if fmt = ''%Y-%m-%d'' \<and> s = lit ''2024-11-30''
      then Some \<lparr>year = 2024, month = 11, day = 30, tod = 0\<rparr>
      else None)"

definition sample_world :: world where
  "sample_world =
     \<lparr>db = plain,
      rounding_of = (\<lambda>x. x),
      clock = \<lparr>year = 2024, month = 11, day = 4, tod = 36000000000\<rparr>,
      json = (\<lambda>s. None),
      strptime = sample_strptime,
      serpapi = (\<lambda>i query. if i = 0 then Reply 200 sample_records else Reply 200 [])\<rparr>"

text \<open>
  The three events this provider yields for November 2024, as parsed, and the queries
  of a run for Austin from 1 to 30 November 2024 without categories.
\<close>

definition jazz_gala :: research_event where
  "jazz_gala =
     \<lparr>event_name = lit ''Jazz Gala'', exact_date = lit ''Nov 15'', exact_venue = lit ''Civic Arena'',
      location = lit ''Austin'', category = lit ''other'', confidence_score = 8/10, source_url = [],
      posted_by = lit ''Event Search'', hype_score = 1/2\<rparr>"

definition chess_club :: research_event where
  "chess_club =
     \<lparr>event_name = lit ''Chess Club'', exact_date = lit ''Sat, Nov 16, 8 PM'',
      exact_venue = lit ''Various Venues'', location = lit ''Location not specified'',
      category = lit ''other'', confidence_score = 8/10, source_url = [],
      posted_by = lit ''Event Search'', hype_score = 1/2\<rparr>"

definition book_fair :: research_event where
  "book_fair =
     \<lparr>event_name = lit ''Book Fair'', exact_date = lit ''Nov 18'',
      exact_venue = lit ''Various Venues'', location = lit ''Location not specified'',
      category = lit ''other'', confidence_score = 8/10, source_url = [],
      posted_by = lit ''Event Search'', hype_score = 1/2\<rparr>"

definition sample_queries :: "str list" where
  "sample_queries = map lit
     [''events Austin November 2024'', ''November events Austin 2024'',
      ''upcoming events Austin November 2024'', ''things to do Austin November 2024'',
      ''events Austin November 01 to November 30 2024'', ''Austin events 2024'',
      ''upcoming events Austin 2024'']"

definition nov_1 :: datetime where
  "nov_1 = \<lparr>year = 2024, month = 11, day = 1, tod = 0\<rparr>"

definition nov_30 :: datetime where
  "nov_30 = \<lparr>year = 2024, month = 11, day = 30, tod = 0\<rparr>"

text \<open>
  A gateway with one answer of four tweets, by two known authors and one unknown, and
  the two attendees it yields for the event \<open>Jazz Festival\<close>.
\<close>

definition sample_tweets :: tweets_response where
  "sample_tweets =
     \<lparr>data =
        [\<lparr>tweet_id = lit ''101'', author_id = lit ''1'',
          tweet_text = lit ''Going to the Jazz Festival tonight'', created_at = lit ''2024-11-04 09:00''\<rparr>,
         \<lparr>tweet_id = lit ''102'', author_id = lit ''2'',
          tweet_text = lit ''Excited for the jazz festival concert'', created_at = lit ''2024-11-04 09:05''\<rparr>,
         \<lparr>tweet_id = lit ''103'', author_id = lit ''1'',
          tweet_text = lit ''jazz festival again'', created_at = lit ''2024-11-04 09:10''\<rparr>,
         \<lparr>tweet_id = lit ''104'', author_id = lit ''9'',
          tweet_text = lit ''Jazz Festival'', created_at = lit ''2024-11-04 09:20''\<rparr>],
      includes_users =
        Some [\<lparr>user_id = lit ''1'', user_username = lit ''ann'', user_name = lit ''Ann'',
               user_description = None, user_location = Some (lit ''Austin''),
               user_verified = None, user_followers = Some 10\<rparr>,
              \<lparr>user_id = lit ''2'', user_username = lit ''bob'', user_name = lit ''Bob'',
               user_description = Some (lit ''music''), user_location = None,
               user_verified = Some True, user_followers = None\<rparr>]\<rparr>"

definition sample_gateway :: gateway where
  "sample_gateway i query hint = (if i = 0 then Some sample_tweets else None)"

definition sample_setting :: setting where
  "sample_setting = \<lparr>chars = plain, roundoff = (\<lambda>x. x), search = sample_gateway\<rparr>"

definition ann :: research_attendee where
  "ann =
     \<lparr>username = lit ''@ann'', display_name = lit ''Ann'', bio = [], location = lit ''Austin'',
      followers_count = 10, verified = False, confidence_score = 7/10,
      engagement_type = lit ''confirmed_attendance'',
      post_content = lit ''Going to the Jazz Festival tonight'', post_date = lit ''2024-11-04 09:00'',
      post_link = lit ''https://twitter.com/ann/status/101'', relevance_score = 19/20\<rparr>"

definition bob :: research_attendee where
  "bob =
     \<lparr>username = lit ''@bob'', display_name = lit ''Bob'', bio = lit ''music'', location = [],
      followers_count = 0, verified = True, confidence_score = 7/10,
      engagement_type = lit ''excited'',
      post_content = lit ''Excited for the jazz festival concert'', post_date = lit ''2024-11-04 09:05'',
      post_link = lit ''https://twitter.com/bob/status/102'', relevance_score = 19/20\<rparr>"

section \<open>Properties of the rate limiter\<close>

text \<open>
  Claim C9. An endpoint without a configured window is always allowed, and the call
  leaves every configured window (remaining count and reset instant included) as it was.
\<close>

theorem unconfigured_endpoint_allowed:
  assumes "endpoint \<notin> dom rl"
  shows "check_rate_limit now endpoint rl = (True, rl)"
  using assms by (simp add: check_rate_limit_def domIff)

theorem unconfigured_endpoint_allowed_witness:
  "''like_tweet'' \<notin> dom setup_advanced_limits
   \<and> check_rate_limit 0 ''like_tweet'' setup_advanced_limits = (True, setup_advanced_limits)"
proof -
  have d: "''like_tweet'' \<notin> dom setup_advanced_limits"
    by (simp add: setup_advanced_limits_def)
  from unconfigured_endpoint_allowed [OF d, of 0] show ?thesis
    using d by simp
qed

lemma check_in_window:
  assumes "rl ep = Some li" "reset_time li = Some r" "t \<le> r" "remaining li > 0"
  shows "check_rate_limit t ep rl = (True, rl(ep \<mapsto> li\<lparr>remaining := remaining li - 1\<rparr>))"
  using assms by (simp add: check_rate_limit_def init_reset_def lazy_reset_def)

lemma check_exhausted:
  assumes "rl ep = Some li" "reset_time li = Some r" "t \<le> r" "remaining li \<le> 0"
  shows "check_rate_limit t ep rl = (False, rl)"
  using assms by (auto simp add: check_rate_limit_def init_reset_def lazy_reset_def)

lemma check_after_reset:
  assumes "rl ep = Some li" "reset_time li = Some r" "t > r" "limit li > 0"
  shows "check_rate_limit t ep rl =
    (True, rl(ep \<mapsto> li\<lparr>remaining := limit li - 1, reset_time := Some (t + timedelta_minutes (window_minutes li))\<rparr>))"
  using assms by (auto simp add: check_rate_limit_def init_reset_def lazy_reset_def intro!: limit_info.equality)

lemma check_many_in_window:
  assumes "rl ep = Some li" "reset_time li = Some r" "\<forall>t\<in>set ts. t \<le> r"
    "int (length ts) \<le> remaining li"
  shows "check_many ep ts rl =
    (replicate (length ts) True, rl(ep \<mapsto> li\<lparr>remaining := remaining li - int (length ts)\<rparr>))"
  using assms
proof (induction ts arbitrary: rl li)
  case Nil
  then show ?case by (simp add: fun_upd_idem)
next
  case (Cons t ts)
  let ?li' = "li\<lparr>remaining := remaining li - 1\<rparr>"
  let ?rl' = "rl(ep \<mapsto> ?li')"
  have step: "check_rate_limit t ep rl = (True, ?rl')"
    using Cons.prems by (intro check_in_window) auto
  have "check_many ep ts ?rl' =
    (replicate (length ts) True, ?rl'(ep \<mapsto> ?li'\<lparr>remaining := remaining ?li' - int (length ts)\<rparr>))"
    using Cons.prems by (intro Cons.IH) auto
  moreover have "remaining li - 1 - int (length ts) = remaining li - int (length (t # ts))"
    by simp
  ultimately show ?case using step by (auto simp: fun_eq_iff)
qed

lemma check_first:
  assumes "rl ep = Some li" "reset_time li = None" "remaining li > 0" "window_minutes li \<ge> 0"
  shows "check_rate_limit t ep rl =
    (True, rl(ep \<mapsto> li\<lparr>remaining := remaining li - 1, reset_time := Some (t + timedelta_minutes (window_minutes li))\<rparr>))"
  using assms by (auto simp add: check_rate_limit_def init_reset_def lazy_reset_def timedelta_minutes_def intro!: limit_info.equality)

lemma check_many_append:
  "check_many ep (xs @ ys) rl =
     (let (a, rl1) = check_many ep xs rl; (b, rl2) = check_many ep ys rl1 in (a @ b, rl2))"
  by (induction xs arbitrary: rl) (simp_all add: split_beta Let_def)

text \<open>
  Claim C6. The search endpoint has capacity 60 and a 15-minute window. From a fresh
  limiter, with the first attempt at \<open>t1\<close> and the following 60 attempts no later than
  the reset instant \<open>t1 + 15 min\<close>, the first 60 attempts are allowed and the 61st is
  denied; an attempt at any instant after the reset instant is then allowed and leaves
  59 remaining.
\<close>

theorem search_recent_window:
  assumes len: "length ts = 60"
    and inside: "\<forall>t\<in>set ts. t \<le> t1 + timedelta_minutes 15"
    and after: "t' > t1 + timedelta_minutes 15"
  shows "(let (oks, rl61) = check_many ''search_recent'' (t1 # ts) setup_advanced_limits;
              (ok', rl') = check_rate_limit t' ''search_recent'' rl61
          in oks = replicate 60 True @ [False] \<and> ok' = True
             \<and> map_option remaining (rl' ''search_recent'') = Some 59)"
proof -
  let ?ep = "''search_recent''"
  let ?r = "t1 + timedelta_minutes 15"
  define li0 where "li0 = \<lparr>limit = 60, remaining = 60, reset_time = None, window_minutes = 15\<rparr>"
  define li1 where "li1 = li0\<lparr>remaining := remaining li0 - 1, reset_time := Some ?r\<rparr>"
  define rl1 where "rl1 = setup_advanced_limits(?ep \<mapsto> li1)"
  have s0: "setup_advanced_limits ?ep = Some li0"
    by (simp add: setup_advanced_limits_def li0_def)
  have first: "check_rate_limit t1 ?ep setup_advanced_limits = (True, rl1)"
  proof -
    have "reset_time li0 = None" "remaining li0 > 0" "window_minutes li0 \<ge> 0"
      by (simp_all add: li0_def)
    from check_first [of setup_advanced_limits ?ep li0 t1, OF s0 this]
    show ?thesis by (simp add: rl1_def li1_def li0_def)
  qed
  obtain us u where ts: "ts = us @ [u]" and lus: "length us = 59"
    using len by (cases ts rule: rev_cases) auto
  define li60 where "li60 = li1\<lparr>remaining := remaining li1 - int (length us)\<rparr>"
  define rl60 where "rl60 = rl1(?ep \<mapsto> li60)"
  have r1: "rl1 ?ep = Some li1" by (simp add: rl1_def)
  have rt1: "reset_time li1 = Some ?r" by (simp add: li1_def)
  have rem1: "remaining li1 = 59" by (simp add: li1_def li0_def)
  have mid: "check_many ?ep us rl1 = (replicate (length us) True, rl60)"
  proof -
    have "\<forall>t\<in>set us. t \<le> ?r" using inside ts by simp
    moreover have "int (length us) \<le> remaining li1" using lus rem1 by simp
    ultimately show ?thesis
      using check_many_in_window [of rl1 ?ep li1 ?r us] r1 rt1
      by (simp add: rl60_def li60_def)
  qed
  have r60: "rl60 ?ep = Some li60" by (simp add: rl60_def)
  have rt60: "reset_time li60 = Some ?r" by (simp add: li60_def li1_def)
  have rem60: "remaining li60 = 0" by (simp add: li60_def rem1 lus)
  have lim60: "limit li60 = 60" by (simp add: li60_def li1_def li0_def)
  have denied: "check_rate_limit u ?ep rl60 = (False, rl60)"
    using check_exhausted [of rl60 ?ep li60 ?r u] r60 rt60 inside ts rem60 by simp
  have all: "check_many ?ep (t1 # ts) setup_advanced_limits = (replicate 60 True @ [False], rl60)"
  proof -
    have "True # replicate 59 True = replicate 60 True"
      by (simp add: numeral_eq_Suc)
    with first mid denied lus show ?thesis
      by (simp add: ts check_many_append)
  qed
  have again: "check_rate_limit t' ?ep rl60 =
      (True, rl60(?ep \<mapsto> li60\<lparr>remaining := limit li60 - 1,
          reset_time := Some (t' + timedelta_minutes (window_minutes li60))\<rparr>))"
    using check_after_reset [of rl60 ?ep li60 ?r t'] r60 rt60 after lim60 by simp
  show ?thesis
    unfolding all by (simp add: again lim60)
qed

theorem search_recent_window_witness:
  "(let (oks, rl61) = check_many ''search_recent'' (0 # replicate 60 900000000) setup_advanced_limits;
        (ok', rl') = check_rate_limit 900000001 ''search_recent'' rl61
    in oks = replicate 60 True @ [False] \<and> ok' = True
       \<and> map_option remaining (rl' ''search_recent'') = Some 59)"
  using search_recent_window [of "replicate 60 900000000" 0 900000001]
  by (simp add: timedelta_minutes_def)

section \<open>Properties of the string functions\<close>

lemma lower_Nil: "lower U [] = []"
  by (simp add: lower_def)

lemma split_ws_aux_Nil: "split_ws_aux U cur s = [] \<longleftrightarrow> cur = [] \<and> (\<forall>c\<in>set s. is_space U c)"
  by (induction s arbitrary: cur) auto

lemma split_ws_Nil: "split_ws U s = [] \<longleftrightarrow> (\<forall>c\<in>set s. is_space U c)"
  by (simp add: split_ws_def split_ws_aux_Nil)

lemma length_strip_le: "length (strip U s) \<le> length s"
proof -
  have "length (strip U s) = length (dropWhile (is_space U) (rev (dropWhile (is_space U) s)))"
    by (simp add: strip_def)
  also have "\<dots> \<le> length (rev (dropWhile (is_space U) s))" by (rule length_dropWhile_le)
  also have "\<dots> \<le> length s" by (simp add: length_dropWhile_le)
  finally show ?thesis .
qed

lemma strip_nonempty_has_token: "strip U s \<noteq> [] \<Longrightarrow> split_ws U s \<noteq> []"
proof -
  assume "strip U s \<noteq> []"
  moreover have "dropWhile (is_space U) s = [] \<Longrightarrow> strip U s = []" by (simp add: strip_def del: dropWhile_eq_Nil_conv)
  ultimately have "dropWhile (is_space U) s \<noteq> []" by blast
  then have "\<exists>c\<in>set s. \<not> is_space U c" by (simp add: dropWhile_eq_Nil_conv)
  then show ?thesis by (simp add: split_ws_Nil)
qed

lemma contains_nonempty: "contains sub s \<Longrightarrow> sub \<noteq> [] \<Longrightarrow> s \<noteq> []"
  by (cases s) auto

section \<open>Slices and the descending stable sort\<close>

lemma py_prefix_is_prefix: "prefix (py_prefix n xs) xs"
  by (simp add: py_prefix_def take_is_prefix)

lemma py_prefix_Nil: "py_prefix n [] = []"
  by (simp add: py_prefix_def)

lemma set_py_prefix: "set (py_prefix n xs) \<subseteq> set xs"
  by (rule set_mono_prefix [OF py_prefix_is_prefix])

lemma length_py_prefix: "0 \<le> n \<Longrightarrow> length (py_prefix n xs) \<le> nat n"
  by (simp add: py_prefix_def)

lemma length_py_prefix_le: "length (py_prefix n xs) \<le> length xs"
  by (simp add: py_prefix_def)

lemma sort_descending_sorted:
  "sorted_wrt (\<lambda>a b. key a \<ge> key b) (sort_descending key xs)"
proof -
  have "sorted (map (\<lambda>x. - key x) (sort_key (\<lambda>x. - key x) xs))" by (rule sorted_sort_key)
  then show ?thesis by (simp add: sort_descending_def sorted_wrt_map)
qed

lemma sort_descending_stable:
  "filter (\<lambda>y. key y = k) (sort_descending key xs) = filter (\<lambda>y. key y = k) xs"
  using sort_key_stable [of "\<lambda>x. - key x" "- k" xs] by (simp add: sort_descending_def)

lemma set_sort_descending: "set (sort_descending key xs) = set xs"
  by (simp add: sort_descending_def)

lemma length_sort_descending: "length (sort_descending key xs) = length xs"
  by (simp add: sort_descending_def)

lemma sorted_wrt_prefix: "prefix xs ys \<Longrightarrow> sorted_wrt R ys \<Longrightarrow> sorted_wrt R xs"
  by (auto simp: prefix_def sorted_wrt_append)

lemma top_sorted:
  "sorted_wrt (\<lambda>a b. key a \<ge> key b) (py_prefix n (sort_descending key xs))"
  by (rule sorted_wrt_prefix [OF py_prefix_is_prefix sort_descending_sorted])

lemma top_stable:
  "prefix (filter (\<lambda>y. key y = k) (py_prefix n (sort_descending key xs)))
          (filter (\<lambda>y. key y = k) xs)"
proof -
  have "prefix (filter (\<lambda>y. key y = k) (py_prefix n (sort_descending key xs)))
               (filter (\<lambda>y. key y = k) (sort_descending key xs))"
    using py_prefix_is_prefix by (rule filter_mono_prefix)
  then show ?thesis by (simp add: sort_descending_stable)
qed



lemma tie_order_kept:
  assumes p: "prefix (filter (\<lambda>y. key y = key a) result) (filter (\<lambda>y. key y = key a) accumulated)"
    and s: "subseq [a, b] result" and k: "key a = key b"
  shows "subseq [a, b] accumulated"
proof -
  have "subseq (filter (\<lambda>y. key y = key a) [a, b]) (filter (\<lambda>y. key y = key a) result)"
    using s by (rule subseq_filter)
  hence "subseq [a, b] (filter (\<lambda>y. key y = key a) result)"
    using k by simp
  moreover have "subseq (filter (\<lambda>y. key y = key a) result) (filter (\<lambda>y. key y = key a) accumulated)"
    using p by (rule prefix_imp_subseq)
  moreover have "subseq (filter (\<lambda>y. key y = key a) accumulated) accumulated"
    by (rule subseq_filter_left)
  ultimately show ?thesis
    by (meson subseq_order.trans)
qed

section \<open>Keyword extraction\<close>

lemma split_ws_aux_chars:
  "w \<in> set (split_ws_aux U cur s) \<Longrightarrow> set w \<subseteq> set cur \<union> set s"
proof (induction s arbitrary: cur)
  case Nil
  then show ?case by (auto split: if_splits)
next
  case (Cons c cs)
  show ?case
  proof (cases "is_space U c")
    case False
    with Cons.prems have "w \<in> set (split_ws_aux U (c # cur) cs)" by simp
    from Cons.IH [OF this] show ?thesis by auto
  next
    case True
    with Cons.prems have "w = rev cur \<or> w \<in> set (split_ws_aux U [] cs)"
      by (auto split: if_splits)
    then show ?thesis
    proof
      assume "w = rev cur" then show ?thesis by auto
    next
      assume "w \<in> set (split_ws_aux U [] cs)"
      from Cons.IH [OF this] show ?thesis by auto
    qed
  qed
qed

lemma split_ws_chars: "w \<in> set (split_ws U s) \<Longrightarrow> set w \<subseteq> set s"
  using split_ws_aux_chars [of w U "[]" s] by (simp add: split_ws_def)

lemma lower_char_idem: "lower_char (lower_char c) = lower_char c"
  by (auto simp: lower_char_def is_upper_def)

lemma lower_char_ascii: "is_ascii c \<Longrightarrow> is_ascii (lower_char c)"
  by (auto simp: lower_char_def is_upper_def is_ascii_def)

lemma lower_ascii_idem:
  assumes "list_all is_ascii s"
  shows "lower U (lower U s) = lower U s"
proof -
  have "list_all is_ascii (map lower_char s)"
    using assms by (auto simp: list_all_iff lower_char_ascii)
  then show ?thesis using assms by (simp add: lower_def lower_char_idem)
qed

lemma blank_punct_ascii: "list_all is_ascii s \<Longrightarrow> list_all is_ascii (blank_punct U s)"
  by (auto simp: list_all_iff blank_punct_def is_ascii_def)

lemma token_ascii:
  assumes "list_all is_ascii s" and "w \<in> set (split_ws U s)"
  shows "list_all is_ascii w"
  using assms split_ws_chars [of w U s] by (auto simp: list_all_iff)

lemma keyword_candidates_lowered:
  "k \<in> set (keyword_candidates U name) \<Longrightarrow>
     \<exists>w \<in> set (split_ws U (blank_punct U name)). k = lower U w"
  by (auto simp: keyword_candidates_def)

lemma keyword_candidates_Nil:
  "keyword_candidates U name = [] \<longleftrightarrow>
     (\<forall>w\<in>set (split_ws U (blank_punct U name)). lower U w \<in> set stop_words \<or> length w \<le> 2)"
  by (auto simp: keyword_candidates_def filter_empty_conv not_less)

lemma extract_keywords_tokens:
  assumes "extract_keywords U name = Inr ks" and "k \<in> set ks"
  shows "\<exists>w. (w \<in> set (split_ws U (blank_punct U name)) \<or> w \<in> set (split_ws U name))
             \<and> k = lower U w"
proof (cases "keyword_candidates U name = []")
  case False
  with assms have "k \<in> set (keyword_candidates U name)"
    by (auto simp: extract_keywords_def)
  then show ?thesis using keyword_candidates_lowered by blast
next
  case True
  with assms obtain w ws where "split_ws U name = w # ws" and "k = lower U w"
    by (auto simp: extract_keywords_def split: list.splits)
  then show ?thesis by auto
qed

text \<open>
  Claim C10, as amended. When the event name has a whitespace-delimited token,
  \<open>_extract_keywords\<close> returns a non-empty list whose elements are lowercased tokens (of
  the cleaned name or of the original one; for an ASCII name each element is its own
  lowercase), and when every token of the cleaned name is a stop word or at most 2
  characters long this list is the lowercased first token of the original name. When
  the name has no token the fallback indexes an empty list and the function raises
  \<open>IndexError\<close>; this is the case exactly when the name is empty or consists of
  whitespace only, whitespace being what \<open>str.split\<close> takes for it, beyond ASCII too.
\<close>

theorem extract_keywords_cases:
  "(split_ws U name \<noteq> [] \<longrightarrow>
      (\<exists>ks. extract_keywords U name = Inr ks \<and> ks \<noteq> []
         \<and> (\<forall>k\<in>set ks. \<exists>w. (w \<in> set (split_ws U (blank_punct U name)) \<or> w \<in> set (split_ws U name))
                              \<and> k = lower U w)
         \<and> (list_all is_ascii name \<longrightarrow> (\<forall>k\<in>set ks. lower U k = k))
         \<and> ((\<forall>w\<in>set (split_ws U (blank_punct U name)). lower U w \<in> set stop_words \<or> length w \<le> 2)
              \<longrightarrow> (\<exists>w ws. split_ws U name = w # ws \<and> ks = [lower U w]))))
   \<and> (split_ws U name = [] \<longrightarrow> extract_keywords U name = Inl IndexError)
   \<and> (split_ws U name = [] \<longleftrightarrow> (\<forall>c\<in>set name. is_space U c))"
proof (intro conjI impI)
  assume tok: "split_ws U name \<noteq> []"
  then obtain w ws where sp: "split_ws U name = w # ws"
    by (cases "split_ws U name") auto
  define ks where "ks = (if keyword_candidates U name = [] then [lower U w]
                         else keyword_candidates U name)"
  have ks: "extract_keywords U name = Inr ks"
    by (simp add: ks_def extract_keywords_def sp)
  have ne: "ks \<noteq> []" by (simp add: ks_def)
  have fb: "keyword_candidates U name = [] \<longrightarrow> ks = [lower U w]" by (simp add: ks_def)
  have shape: "\<forall>k\<in>set ks. \<exists>w. (w \<in> set (split_ws U (blank_punct U name)) \<or> w \<in> set (split_ws U name))
                              \<and> k = lower U w"
    using extract_keywords_tokens [OF ks] by blast
  have low: "list_all is_ascii name \<longrightarrow> (\<forall>k\<in>set ks. lower U k = k)"
  proof (intro impI ballI)
    fix k assume a: "list_all is_ascii name" and k: "k \<in> set ks"
    from shape k obtain v where
      v: "v \<in> set (split_ws U (blank_punct U name)) \<or> v \<in> set (split_ws U name)"
      and kv: "k = lower U v" by blast
    from v have "list_all is_ascii v"
    proof
      assume "v \<in> set (split_ws U (blank_punct U name))"
      with blank_punct_ascii [OF a] show ?thesis by (rule token_ascii)
    next
      assume "v \<in> set (split_ws U name)"
      with a show ?thesis by (rule token_ascii)
    qed
    then show "lower U k = k" unfolding kv by (rule lower_ascii_idem)
  qed
  have fall: "(\<forall>w\<in>set (split_ws U (blank_punct U name)). lower U w \<in> set stop_words \<or> length w \<le> 2)
              \<longrightarrow> (\<exists>w ws. split_ws U name = w # ws \<and> ks = [lower U w])"
  proof
    assume "\<forall>w\<in>set (split_ws U (blank_punct U name)). lower U w \<in> set stop_words \<or> length w \<le> 2"
    then have "keyword_candidates U name = []" by (simp only: keyword_candidates_Nil)
    with fb have "ks = [lower U w]" by simp
    with sp show "\<exists>w ws. split_ws U name = w # ws \<and> ks = [lower U w]" by simp
  qed
  show "\<exists>ks. extract_keywords U name = Inr ks \<and> ks \<noteq> []
         \<and> (\<forall>k\<in>set ks. \<exists>w. (w \<in> set (split_ws U (blank_punct U name)) \<or> w \<in> set (split_ws U name))
                              \<and> k = lower U w)
         \<and> (list_all is_ascii name \<longrightarrow> (\<forall>k\<in>set ks. lower U k = k))
         \<and> ((\<forall>w\<in>set (split_ws U (blank_punct U name)). lower U w \<in> set stop_words \<or> length w \<le> 2)
              \<longrightarrow> (\<exists>w ws. split_ws U name = w # ws \<and> ks = [lower U w]))"
    by (rule exI [of _ ks]) (intro conjI ks ne shape low fall)
next
  assume emp: "split_ws U name = []"
  have "\<forall>c\<in>set (blank_punct U name). is_space U c"
  proof -
    have "\<forall>c\<in>set name. is_space U c" using emp split_ws_Nil by blast
    then show ?thesis by (auto simp: blank_punct_def)
  qed
  then have "split_ws U (blank_punct U name) = []" using split_ws_Nil by blast
  then have "keyword_candidates U name = []" by (simp add: keyword_candidates_def)
  then show "extract_keywords U name = Inl IndexError"
    by (simp add: extract_keywords_def emp)
next
  show "split_ws U name = [] \<longleftrightarrow> (\<forall>c\<in>set name. is_space U c)"
    by (rule split_ws_Nil)
qed

text \<open>
  The theorem at three names. \<open>a to of\<close> has tokens, all of them stop words or short,
  and the first is returned. A name of two spaces has no token and raises. So does the
  name that is one no-break space (code point 160) under a database that, like
  Python's, takes the no-break space for whitespace.
\<close>

theorem extract_keywords_cases_witness:
  "split_ws plain (lit ''a to of'') \<noteq> [] \<and> extract_keywords plain (lit ''a to of'') = Inr [lit ''a'']
   \<and> split_ws plain (lit ''  '') = [] \<and> extract_keywords plain (lit ''  '') = Inl IndexError
   \<and> extract_keywords (plain\<lparr>isspace := (\<lambda>c. c = 160)\<rparr>) [160] = Inl IndexError"
proof -
  have t: "split_ws plain (lit ''a to of'') = [lit ''a'', lit ''to'', lit ''of'']" by code_simp
  have c: "\<forall>w\<in>set (split_ws plain (blank_punct plain (lit ''a to of''))).
             lower plain w \<in> set stop_words \<or> length w \<le> 2"
    by code_simp
  have l: "lower plain (lit ''a'') = lit ''a''" by code_simp
  have e: "split_ws plain (lit ''  '') = []" by code_simp
  have n: "split_ws (plain\<lparr>isspace := (\<lambda>c. c = 160)\<rparr>) [160] = []"
    by (simp add: split_ws_def is_space_def is_ascii_def)
  from extract_keywords_cases [of plain "lit ''a to of''"] t c l
  have "extract_keywords plain (lit ''a to of'') = Inr [lit ''a'']" by auto
  moreover from extract_keywords_cases [of plain "lit ''  ''"] e
  have "extract_keywords plain (lit ''  '') = Inl IndexError" by blast
  moreover from extract_keywords_cases [of "plain\<lparr>isspace := (\<lambda>c. c = 160)\<rparr>" "[160]"] n
  have "extract_keywords (plain\<lparr>isspace := (\<lambda>c. c = 160)\<rparr>) [160] = Inl IndexError" by blast
  ultimately show ?thesis using t e by simp
qed

text \<open>
  A name of punctuation only has a token of its own, so the fallback returns it
  instead of raising. The name is ASCII, so the database is not consulted.
\<close>

theorem extract_keywords_punct_counterexample:
  "extract_keywords plain (lit ''!!!'') = Inr [lit ''!!!'']"
  by code_simp

section \<open>First occurrences by key\<close>

lemma first_seen_subset: "set (first_seen_by key seen xs) \<subseteq> set xs"
  by (induction xs arbitrary: seen) auto

lemma first_seen_unseen: "x \<in> set (first_seen_by key seen xs) \<Longrightarrow> key x \<notin> seen"
  by (induction xs arbitrary: seen) (auto split: if_splits)

lemma first_seen_distinct: "distinct (map key (first_seen_by key seen xs))"
proof (induction xs arbitrary: seen)
  case Nil
  then show ?case by simp
next
  case (Cons x xs)
  have "key x \<notin> key ` set (first_seen_by key (insert (key x) seen) xs)"
  proof
    assume "key x \<in> key ` set (first_seen_by key (insert (key x) seen) xs)"
    then obtain y where y: "y \<in> set (first_seen_by key (insert (key x) seen) xs)"
      and e: "key x = key y" by auto
    from y have "key y \<notin> insert (key x) seen" by (rule first_seen_unseen)
    with e show False by simp
  qed
  with Cons show ?case by simp
qed

lemma first_seen_append:
  "first_seen_by key seen (xs @ ys) =
     first_seen_by key seen xs @ first_seen_by key (seen \<union> key ` set xs) ys"
proof (induction xs arbitrary: seen)
  case Nil
  then show ?case by simp
next
  case (Cons x xs)
  have "insert (key x) seen \<union> key ` set xs = seen \<union> key ` set (x # xs)" by auto
  moreover have "key x \<in> seen \<Longrightarrow> seen \<union> key ` set xs = seen \<union> key ` set (x # xs)" by auto
  ultimately show ?case using Cons by simp
qed


lemma first_seen_keys: "key ` set (first_seen_by key seen xs) = key ` set xs - seen"
  by (induction xs arbitrary: seen) auto

lemma distinct_map_length_le_card:
  assumes "distinct (map key xs)" "set xs \<subseteq> set ys"
  shows "length xs \<le> card (set ys)"
proof -
  have "distinct xs" using assms(1) by (simp add: distinct_map)
  then have "length xs = card (set xs)" by (simp add: distinct_card)
  also have "\<dots> \<le> card (set ys)" using assms(2) by (simp add: card_mono)
  finally show ?thesis .
qed

section \<open>Dates and keys of events\<close>

lemma date_portion_Nil: "date_portion U [] = []"
  by (simp add: date_portion_def lit_def)

lemma month_names_nonempty: "(n, m) \<in> set months \<Longrightarrow> n \<noteq> []"
  by (auto simp: months_def lit_def)

lemma parse_date_string_token:
  assumes "parse_date_string U now s = Some d"
  shows "split_ws U s \<noteq> []"
proof -
  let ?c = "date_portion U (strip U s)"
  from assms obtain n m where f: "find (\<lambda>(month_name, month_num). contains month_name (lower U ?c)) months = Some (n, m)"
    by (auto simp: parse_date_string_def Let_def split: if_splits option.splits)
  then have "(n, m) \<in> set months" and "contains n (lower U ?c)"
    by (auto simp: find_Some_iff dest: nth_mem)
  then have "lower U ?c \<noteq> []" using contains_nonempty month_names_nonempty by blast
  then have "?c \<noteq> []" using lower_Nil by auto
  then have "strip U s \<noteq> []" using date_portion_Nil by auto
  then show ?thesis by (rule strip_nonempty_has_token)
qed

lemma starts_with_brace_token: "starts_with_brace s \<Longrightarrow> split_ws U s \<noteq> []"
proof -
  assume "starts_with_brace s"
  then obtain cs where "s = 123 # cs"
    by (cases s) (auto simp: starts_with_brace_def)
  then have "\<exists>c\<in>set s. \<not> is_space U c" by (auto simp: is_space_def is_ascii_def)
  then show ?thesis by (simp add: split_ws_Nil)
qed

lemma parse_serpapi_date_token:
  assumes "parse_serpapi_date U loads now s = Some d"
  shows "split_ws U s \<noteq> []"
proof (cases "starts_with_brace s")
  case True
  then show ?thesis by (rule starts_with_brace_token)
next
  case False
  with assms have "parse_date_string U now s = Some d"
    by (auto simp: parse_serpapi_date_def split: if_splits)
  then show ?thesis by (rule parse_date_string_token)
qed

lemma in_range_key:
  assumes "in_range w start_dt end_dt event"
  shows "\<exists>k. create_event_key (db w) event = Inr k"
proof -
  from assms obtain d where "parse_serpapi_date (db w) (json w) (clock w) (exact_date event) = Some d"
    by (auto simp: in_range_def split: option.splits)
  then have "split_ws (db w) (exact_date event) \<noteq> []" by (rule parse_serpapi_date_token)
  then show ?thesis
    by (auto simp: create_event_key_def Let_def split: list.splits)
qed

lemma merge_events_spec:
  "merge_events w start_dt end_dt events (all_events, seen_events) =
     Inr (all_events @ first_seen_by (create_event_key (db w)) (Inr ` seen_events)
                         (filter (in_range w start_dt end_dt) events),
          seen_events \<union> {k. Inr k \<in> create_event_key (db w) ` set (filter (in_range w start_dt end_dt) events)})"
proof (induction events arbitrary: all_events seen_events)
  case Nil
  then show ?case by simp
next
  case (Cons event events)
  show ?case
  proof (cases "in_range w start_dt end_dt event")
    case False
    then show ?thesis using Cons
      by (auto simp: in_range_def split: option.splits)
  next
    case True
    then obtain k where k: "create_event_key (db w) event = Inr k" using in_range_key by blast
    from True obtain d where d: "parse_serpapi_date (db w) (json w) (clock w) (exact_date event) = Some d"
      "dt_le start_dt d" "dt_le d end_dt"
      by (auto simp: in_range_def split: option.splits)
    show ?thesis
    proof (cases "k \<in> seen_events")
      case True
      then have "insert k seen_events = seen_events" by auto
      with True \<open>in_range w start_dt end_dt event\<close> k d Cons [of all_events seen_events]
      show ?thesis by (auto simp: image_iff)
    next
      case False
      have "Inr ` insert k seen_events = insert (Inr k :: py_error + str) (Inr ` seen_events)" by auto
      with False \<open>in_range w start_dt end_dt event\<close> k d Cons [of "all_events @ [event]" "insert k seen_events"]
      show ?thesis by (auto simp: image_iff)
    qed
  qed
qed

lemma in_range_keys_image:
  "Inr ` (seen \<union> {k. Inr k \<in> create_event_key (db w) ` set (filter (in_range w start_dt end_dt) events)})
     = Inr ` seen \<union> create_event_key (db w) ` set (filter (in_range w start_dt end_dt) events)"
    (is "Inr ` (seen \<union> ?K) = Inr ` seen \<union> ?I")
proof (rule set_eqI)
  fix x :: "py_error + str"
  show "x \<in> Inr ` (seen \<union> ?K) \<longleftrightarrow> x \<in> Inr ` seen \<union> ?I"
  proof
    assume "x \<in> Inr ` (seen \<union> ?K)"
    then obtain k where "x = Inr k" and "k \<in> seen \<or> k \<in> ?K" by blast
    then show "x \<in> Inr ` seen \<union> ?I" by blast
  next
    assume "x \<in> Inr ` seen \<union> ?I"
    then show "x \<in> Inr ` (seen \<union> ?K)"
    proof
      assume "x \<in> Inr ` seen" then show ?thesis by blast
    next
      assume xi: "x \<in> ?I"
      then obtain event where e: "event \<in> set (filter (in_range w start_dt end_dt) events)"
        and xe: "x = create_event_key (db w) event" by blast
      from e have "in_range w start_dt end_dt event" by simp
      then obtain k where "create_event_key (db w) event = Inr k" using in_range_key by blast
      with xe xi have "x = Inr k" and "k \<in> ?K" by simp_all
      then show ?thesis by blast
    qed
  qed
qed

lemma fetch_loop_spec:
  "\<exists>new. prefix new queries \<and>
     fetch_loop w start_dt end_dt max_results queries sent (all_events, seen_events) =
       (sent @ new,
        Inr (all_events @ first_seen_by (create_event_key (db w)) (Inr ` seen_events)
               (filter (in_range w start_dt end_dt) (provider_events_from w (length sent) new))))"
proof (induction queries arbitrary: sent all_events seen_events)
  case Nil
  show ?case by (rule exI [of _ "[]"]) simp
next
  case (Cons query queries)
  show ?case
  proof (cases "int (length all_events) \<ge> max_results * 2")
    case True
    then show ?thesis by (intro exI [of _ "[]"]) simp
  next
    case False
    let ?evs = "fetch_serpapi_events w (length sent) query 10"
    let ?all = "all_events @ first_seen_by (create_event_key (db w)) (Inr ` seen_events)
                  (filter (in_range w start_dt end_dt) ?evs)"
    let ?seen = "seen_events \<union> {k. Inr k \<in> create_event_key (db w) ` set (filter (in_range w start_dt end_dt) ?evs)}"
    from Cons [of "sent @ [query]" ?all ?seen]
    obtain new where p: "prefix new queries" and
      r: "fetch_loop w start_dt end_dt max_results queries (sent @ [query]) (?all, ?seen) =
           ((sent @ [query]) @ new,
            Inr (?all @ first_seen_by (create_event_key (db w)) (Inr ` ?seen)
               (filter (in_range w start_dt end_dt)
                  (provider_events_from w (length (sent @ [query])) new))))"
      by blast
    have step: "fetch_loop w start_dt end_dt max_results (query # queries) sent (all_events, seen_events)
          = fetch_loop w start_dt end_dt max_results queries (sent @ [query]) (?all, ?seen)"
      using False by (simp add: merge_events_spec Let_def)
    have "prefix (query # new) (query # queries)" using p by simp
    moreover have "fetch_loop w start_dt end_dt max_results (query # queries) sent (all_events, seen_events)
       = (sent @ query # new,
          Inr (all_events @ first_seen_by (create_event_key (db w)) (Inr ` seen_events)
               (filter (in_range w start_dt end_dt)
                  (provider_events_from w (length sent) (query # new)))))"
      unfolding step r
      by (simp add: first_seen_append in_range_keys_image del: set_filter)
    ultimately show ?thesis by blast
  qed
qed

lemma fetch_events_with_date_filter_spec:
  "\<exists>sent. prefix sent queries \<and>
     fetch_events_with_date_filter w queries start_dt end_dt max_results =
       (sent, Inr (first_seen_by (create_event_key (db w)) {}
                     (filter (in_range w start_dt end_dt) (provider_events w sent))))"
  using fetch_loop_spec [of queries w start_dt end_dt max_results "[]" "[]" "{}"]
  by (simp add: fetch_events_with_date_filter_def provider_events_def)

lemma fetch_loop_stops:
  "int (length all_events) \<ge> max_results * 2 \<Longrightarrow>
     fetch_loop w start_dt end_dt max_results queries sent (all_events, seen_events) =
       (sent, Inr all_events)"
  by (cases queries) simp_all

lemma score_events_by_hype_eq:
  "score_events_by_hype (db w) (rounding_of w) events =
     sort_descending hype_score (map (rescored w) events)"
  by (simp add: score_events_by_hype_def rescored_def [abs_def])

lemma score_events_by_hype_Nil: "score_events_by_hype U rnd [] = []"
  by (simp add: score_events_by_hype_def sort_descending_def)

lemma discover_events_result:
  "snd (discover_events w serp_api_key place start_date end_date categories max_results) =
     py_prefix max_results (score_events_by_hype (db w) (rounding_of w)
       (accumulated_events w serp_api_key place start_date end_date categories max_results))"
proof (cases "serp_api_key = None \<or> serp_api_key = Some []")
  case True
  then show ?thesis
    by (auto simp: accumulated_events_def discover_events_def py_prefix_Nil score_events_by_hype_Nil)
next
  case nokey: False
  show ?thesis
  proof (cases "parse_user_date w start_date")
    case None
    with nokey show ?thesis
      by (auto simp: accumulated_events_def discover_events_def py_prefix_Nil score_events_by_hype_Nil)
  next
    case s: (Some start_dt)
    show ?thesis
    proof (cases "parse_user_date w end_date")
      case None
      with nokey s show ?thesis
        by (auto simp: accumulated_events_def discover_events_def py_prefix_Nil score_events_by_hype_Nil)
    next
      case e: (Some end_dt)
      show ?thesis
      proof (cases "build_date_specific_queries place categories start_dt end_dt")
        case (Inl err)
        with nokey s e show ?thesis
          by (auto simp: accumulated_events_def discover_events_def py_prefix_Nil score_events_by_hype_Nil)
      next
        case (Inr date_queries)
        obtain sent r where f: "fetch_events_with_date_filter w date_queries start_dt end_dt max_results = (sent, r)"
          by (cases "fetch_events_with_date_filter w date_queries start_dt end_dt max_results")
        with nokey s e Inr show ?thesis
          by (cases r) (auto simp: accumulated_events_def discover_events_def py_prefix_Nil
                score_events_by_hype_Nil Let_def)
      qed
    qed
  qed
qed

lemma accumulated_events_spec:
  assumes "parse_user_date w start_date = Some start_dt"
    and "parse_user_date w end_date = Some end_dt"
  shows "accumulated_events w serp_api_key place start_date end_date categories max_results =
     first_seen_by (create_event_key (db w)) {}
       (filter (in_range w start_dt end_dt)
          (provider_events w
             (fst (discover_events w serp_api_key place start_date end_date categories max_results))))"
proof (cases "serp_api_key = None \<or> serp_api_key = Some []")
  case True
  then show ?thesis
    by (auto simp: accumulated_events_def discover_events_def provider_events_def)
next
  case nokey: False
  show ?thesis
  proof (cases "build_date_specific_queries place categories start_dt end_dt")
    case (Inl e)
    with nokey assms show ?thesis
      by (auto simp: accumulated_events_def discover_events_def provider_events_def)
  next
    case (Inr date_queries)
    obtain sent where
      "fetch_events_with_date_filter w date_queries start_dt end_dt max_results =
         (sent, Inr (first_seen_by (create_event_key (db w)) {}
                       (filter (in_range w start_dt end_dt) (provider_events w sent))))"
      using fetch_events_with_date_filter_spec by blast
    with nokey assms Inr show ?thesis
      by (auto simp: accumulated_events_def discover_events_def Let_def)
  qed
qed

lemma accumulated_events_cases:
  "accumulated_events w serp_api_key place start_date end_date categories max_results = [] \<or>
   (\<exists>start_dt end_dt. parse_user_date w start_date = Some start_dt
       \<and> parse_user_date w end_date = Some end_dt)"
  by (auto simp: accumulated_events_def split: option.splits)

lemma fetch_serpapi_events_valid:
  "e \<in> set (fetch_serpapi_events w i query n) \<Longrightarrow> is_valid_event (db w) e"
  by (auto simp: fetch_serpapi_events_def split: http_reply.splits if_splits)

lemma provider_events_from_valid:
  "e \<in> set (provider_events_from w i queries) \<Longrightarrow> is_valid_event (db w) e"
  by (induction queries arbitrary: i) (auto dest: fetch_serpapi_events_valid)

lemma accumulated_events_sound:
  "set (accumulated_events w serp_api_key place start_date end_date categories max_results)
     \<subseteq> set (provider_events w
              (fst (discover_events w serp_api_key place start_date end_date categories max_results)))
   \<and> distinct (map (create_event_key (db w))
        (accumulated_events w serp_api_key place start_date end_date categories max_results))"
proof -
  let ?acc = "accumulated_events w serp_api_key place start_date end_date categories max_results"
  let ?sent = "fst (discover_events w serp_api_key place start_date end_date categories max_results)"
  from accumulated_events_cases [of w serp_api_key place start_date end_date categories max_results]
  show ?thesis
  proof
    assume "?acc = []" then show ?thesis by simp
  next
    assume "\<exists>start_dt end_dt. parse_user_date w start_date = Some start_dt
       \<and> parse_user_date w end_date = Some end_dt"
    then obtain start_dt end_dt where "parse_user_date w start_date = Some start_dt"
      and "parse_user_date w end_date = Some end_dt" by blast
    then have eq: "?acc = first_seen_by (create_event_key (db w)) {}
       (filter (in_range w start_dt end_dt) (provider_events w ?sent))"
      by (rule accumulated_events_spec)
    have "set (first_seen_by (create_event_key (db w)) {}
               (filter (in_range w start_dt end_dt) (provider_events w ?sent)))
          \<subseteq> set (filter (in_range w start_dt end_dt) (provider_events w ?sent))"
      by (rule first_seen_subset)
    then have "set ?acc \<subseteq> set (provider_events w ?sent)" unfolding eq by auto
    moreover have "distinct (map (create_event_key (db w)) ?acc)"
      unfolding eq by (rule first_seen_distinct)
    ultimately show ?thesis by simp
  qed
qed

lemma is_valid_rescored: "is_valid_event U (rescored w e) = is_valid_event U e"
  by (simp add: is_valid_event_def rescored_def)

lemma is_valid_hype: "is_valid_event U (e\<lparr>hype_score := s\<rparr>) = is_valid_event U e"
  by (simp add: is_valid_event_def)


lemma discover_events_items:
  assumes "e \<in> set (snd (discover_events w serp_api_key place start_date end_date categories max_results))"
  shows "\<exists>e0 \<in> set (accumulated_events w serp_api_key place start_date end_date categories max_results).
           e = rescored w e0"
proof -
  have "set (snd (discover_events w serp_api_key place start_date end_date categories max_results))
     \<subseteq> set (score_events_by_hype (db w) (rounding_of w)
      (accumulated_events w serp_api_key place start_date end_date categories max_results))"
    unfolding discover_events_result by (rule set_py_prefix)
  with assms have "e \<in> set (score_events_by_hype (db w) (rounding_of w)
      (accumulated_events w serp_api_key place start_date end_date categories max_results))"
    by blast
  then show ?thesis by (auto simp: score_events_by_hype_eq set_sort_descending)
qed

lemma is_valid_event_name:
  assumes "is_valid_event U e"
  shows "event_name e \<noteq> [] \<and> 3 \<le> length (event_name e)
         \<and> 3 \<le> length (strip U (event_name e))
         \<and> lower U (event_name e) \<notin> set generic_names"
proof -
  from assms have n: "event_name e \<noteq> []" and l: "\<not> length (strip U (event_name e)) < 3"
    and g: "lower U (event_name e) \<notin> set generic_names"
    by (auto simp: is_valid_event_def split: if_splits)
  from l length_strip_le [of U "event_name e"] have "3 \<le> length (event_name e)" by linarith
  with n l g show ?thesis by simp
qed






section \<open>Collecting attendees\<close>

lemma add_attendees_spec:
  assumes "add_attendees max_results attendees (all_attendees, seen) = (all', seen')"
    and "username ` set all_attendees \<subseteq> seen" and "distinct (map username all_attendees)"
  shows "set all' \<subseteq> set all_attendees \<union> set attendees
       \<and> username ` set all' \<subseteq> seen' \<and> distinct (map username all')
       \<and> prefix all_attendees all'
       \<and> int (length all') \<le> max (int (length all_attendees)) max_results"
  using assms
proof (induction attendees arbitrary: all_attendees seen)
  case Nil
  then show ?case by simp
next
  case (Cons a attendees)
  show ?case
  proof (cases "username a \<notin> seen \<and> int (length all_attendees) < max_results")
    case True
    then have step: "add_attendees max_results attendees
        (all_attendees @ [a], insert (username a) seen) = (all', seen')"
      using Cons.prems(1) by simp
    have i1: "username ` set (all_attendees @ [a]) \<subseteq> insert (username a) seen"
      using Cons.prems(2) by auto
    have i2: "distinct (map username (all_attendees @ [a]))"
      using Cons.prems(2,3) True by auto
    from Cons.IH [OF step i1 i2] True show ?thesis
      by (auto dest: append_prefixD)
  next
    case False
    then have step: "add_attendees max_results attendees (all_attendees, seen) = (all', seen')"
      using Cons.prems(1) by auto
    from Cons.IH [OF step Cons.prems(2,3)] show ?thesis by auto
  qed
qed

lemma search_and_process_capped:
  "search_and_process E i query name (min hint 20) =
   search_and_process E i query name hint"
  by (simp add: search_and_process_def)

lemma phase_spec:
  assumes "phase E name max_results hint queries sent (all_attendees, seen) = (sent', r)"
    and "username ` set all_attendees \<subseteq> seen" and "distinct (map username all_attendees)"
  shows "\<exists>new. sent' = sent @ new \<and> length new \<le> length queries \<and>
           (\<forall>all' seen'. r = Inr (all', seen') \<longrightarrow>
              set all' \<subseteq> set all_attendees
                           \<union> set (gateway_attendees_from E name (length sent) new)
              \<and> username ` set all' \<subseteq> seen' \<and> distinct (map username all')
              \<and> prefix all_attendees all'
              \<and> int (length all') \<le> max (int (length all_attendees)) max_results)"
  using assms
proof (induction queries arbitrary: sent all_attendees seen)
  case Nil
  then show ?case by auto
next
  case (Cons q queries)
  obtain query_type query where q: "q = (query_type, query)" by (cases q)
  show ?case
  proof (cases "int (length all_attendees) \<ge> max_results")
    case True
    with Cons.prems q show ?thesis by auto
  next
    case False
    show ?thesis
    proof (cases "search_and_process E (length sent) query name hint")
      case (Inl e)
      with False Cons.prems(1) q have "sent' = sent @ [(query, min hint 20)]" and "r = Inl e"
        by auto
      then show ?thesis by auto
    next
      case (Inr attendees)
      obtain all1 seen1 where a: "add_attendees max_results attendees (all_attendees, seen) = (all1, seen1)"
        by (cases "add_attendees max_results attendees (all_attendees, seen)")
      from add_attendees_spec [OF a Cons.prems(2,3)]
      have a1: "set all1 \<subseteq> set all_attendees \<union> set attendees"
        and a2: "username ` set all1 \<subseteq> seen1" and a3: "distinct (map username all1)"
        and a4: "prefix all_attendees all1"
        and a5: "int (length all1) \<le> max (int (length all_attendees)) max_results"
        by auto
      have step: "phase E name max_results hint queries (sent @ [(query, min hint 20)])
                    (all1, seen1) = (sent', r)"
        using False Cons.prems(1) q Inr a by simp
      from Cons.IH [OF step a2 a3] obtain new where
        n1: "sent' = (sent @ [(query, min hint 20)]) @ new" and n2: "length new \<le> length queries"
        and n3: "\<forall>all' seen'. r = Inr (all', seen') \<longrightarrow>
              set all' \<subseteq> set all1
                  \<union> set (gateway_attendees_from E name
                           (length (sent @ [(query, min hint 20)])) new)
              \<and> username ` set all' \<subseteq> seen' \<and> distinct (map username all')
              \<and> prefix all1 all'
              \<and> int (length all') \<le> max (int (length all1)) max_results"
        by blast
      let ?new = "(query, min hint 20) # new"
      have g: "gateway_attendees_from E name (length sent) ?new =
                 attendees @ gateway_attendees_from E name (Suc (length sent)) new"
        using Inr by (simp add: search_and_process_capped)
      have "sent' = sent @ ?new" using n1 by simp
      moreover have "length ?new \<le> length (q # queries)" using n2 by simp
      moreover have "\<forall>all' seen'. r = Inr (all', seen') \<longrightarrow>
              set all' \<subseteq> set all_attendees
                           \<union> set (gateway_attendees_from E name (length sent) ?new)
              \<and> username ` set all' \<subseteq> seen' \<and> distinct (map username all')
              \<and> prefix all_attendees all'
              \<and> int (length all') \<le> max (int (length all_attendees)) max_results"
      proof (intro allI impI)
        fix all' seen' assume "r = Inr (all', seen')"
        with n3 have b1: "set all' \<subseteq> set all1
                  \<union> set (gateway_attendees_from E name (Suc (length sent)) new)"
          and b2: "username ` set all' \<subseteq> seen'" and b3: "distinct (map username all')"
          and b4: "prefix all1 all'"
          and b5: "int (length all') \<le> max (int (length all1)) max_results"
          by auto
        have "set all' \<subseteq> set all_attendees
                           \<union> set (gateway_attendees_from E name (length sent) ?new)"
          unfolding g using b1 a1 by auto
        moreover have "prefix all_attendees all'" using a4 b4 by (rule prefix_order.trans)
        moreover have "int (length all') \<le> max (int (length all_attendees)) max_results"
          using a5 b5 by linarith
        ultimately show "set all' \<subseteq> set all_attendees
                           \<union> set (gateway_attendees_from E name (length sent) ?new)
              \<and> username ` set all' \<subseteq> seen' \<and> distinct (map username all')
              \<and> prefix all_attendees all'
              \<and> int (length all') \<le> max (int (length all_attendees)) max_results"
          using b2 b3 by simp
      qed
      ultimately show ?thesis by blast
    qed
  qed
qed

lemma phase_stops:
  "int (length all_attendees) \<ge> max_results \<Longrightarrow>
     phase E name max_results hint queries sent (all_attendees, seen) =
       (sent, Inr (all_attendees, seen))"
  by (cases queries) auto

lemma phase_collected:
  assumes "username ` set all_attendees \<subseteq> seen" and "distinct (map username all_attendees)"
  shows "collected_from E name max_results (length queries) sent all_attendees
           (phase E name max_results hint queries sent (all_attendees, seen))"
proof -
  obtain sent' r where p: "phase E name max_results hint queries sent (all_attendees, seen) = (sent', r)"
    by (cases "phase E name max_results hint queries sent (all_attendees, seen)")
  from phase_spec [OF p assms] show ?thesis
    unfolding collected_from_def p by simp
qed

lemma collected_from_refl:
  "username ` set all_attendees \<subseteq> seen \<Longrightarrow> distinct (map username all_attendees) \<Longrightarrow>
   collected_from E name max_results n sent all_attendees (sent, Inr (all_attendees, seen))"
  by (auto simp: collected_from_def)

lemma collected_from_error:
  "collected_from E name max_results n sent all_attendees (sent, Inl e)"
  by (auto simp: collected_from_def)

lemma collected_from_mono:
  "collected_from E name max_results n sent all_attendees outcome \<Longrightarrow> n \<le> m \<Longrightarrow>
   collected_from E name max_results m sent all_attendees outcome"
  unfolding collected_from_def by (meson le_trans)

lemma gateway_attendees_from_append:
  "gateway_attendees_from E name i (xs @ ys) =
     gateway_attendees_from E name i xs
     @ gateway_attendees_from E name (i + length xs) ys"
  by (induction xs arbitrary: i) auto

lemma collected_from_trans:
  assumes a: "collected_from E name max_results n sent all0 (sent1, Inr (all1, seen1))"
    and b: "collected_from E name max_results m sent1 all1 outcome"
  shows "collected_from E name max_results (n + m) sent all0 outcome"
proof -
  from a obtain new1 where s1: "sent1 = sent @ new1" and l1: "length new1 \<le> n"
    and c1: "set all1 \<subseteq> set all0 \<union> set (gateway_attendees_from E name (length sent) new1)"
    and p1: "prefix all0 all1"
    and n1: "int (length all1) \<le> max (int (length all0)) max_results"
    unfolding collected_from_def by auto
  from b obtain new2 where s2: "fst outcome = sent1 @ new2" and l2: "length new2 \<le> m"
    and c2: "\<forall>all' seen'. snd outcome = Inr (all', seen') \<longrightarrow>
           set all' \<subseteq> set all1
                        \<union> set (gateway_attendees_from E name (length sent1) new2)
           \<and> username ` set all' \<subseteq> seen' \<and> distinct (map username all')
           \<and> prefix all1 all'
           \<and> int (length all') \<le> max (int (length all1)) max_results"
    unfolding collected_from_def by auto
  have g: "gateway_attendees_from E name (length sent) (new1 @ new2) =
           gateway_attendees_from E name (length sent) new1
           @ gateway_attendees_from E name (length sent1) new2"
    by (simp add: gateway_attendees_from_append s1)
  have "fst outcome = sent @ (new1 @ new2)" using s1 s2 by simp
  moreover have "length (new1 @ new2) \<le> n + m" using l1 l2 by simp
  moreover have "\<forall>all' seen'. snd outcome = Inr (all', seen') \<longrightarrow>
           set all' \<subseteq> set all0
                        \<union> set (gateway_attendees_from E name (length sent) (new1 @ new2))
           \<and> username ` set all' \<subseteq> seen' \<and> distinct (map username all')
           \<and> prefix all0 all'
           \<and> int (length all') \<le> max (int (length all0)) max_results"
  proof (intro allI impI)
    fix all' seen' assume "snd outcome = Inr (all', seen')"
    with c2 have d1: "set all' \<subseteq> set all1
                        \<union> set (gateway_attendees_from E name (length sent1) new2)"
      and d2: "username ` set all' \<subseteq> seen'" and d3: "distinct (map username all')"
      and d4: "prefix all1 all'"
      and d5: "int (length all') \<le> max (int (length all1)) max_results"
      by auto
    have "set all' \<subseteq> set all0
            \<union> set (gateway_attendees_from E name (length sent) (new1 @ new2))"
      unfolding g using c1 d1 by auto
    moreover have "prefix all0 all'" using p1 d4 by (rule prefix_order.trans)
    moreover have "int (length all') \<le> max (int (length all0)) max_results"
      using n1 d5 by linarith
    ultimately show "set all' \<subseteq> set all0
                        \<union> set (gateway_attendees_from E name (length sent) (new1 @ new2))
           \<and> username ` set all' \<subseteq> seen' \<and> distinct (map username all')
           \<and> prefix all0 all'
           \<and> int (length all') \<le> max (int (length all0)) max_results"
      using d2 d3 by simp
  qed
  ultimately show ?thesis unfolding collected_from_def by blast
qed

lemma collected_from_registered:
  "collected_from E name max_results n sent all0 (sent1, Inr (all1, seen1)) \<Longrightarrow>
   username ` set all1 \<subseteq> seen1 \<and> distinct (map username all1)"
  unfolding collected_from_def by auto

lemma phase2_collected:
  assumes "username ` set all_attendees \<subseteq> seen" and "distinct (map username all_attendees)"
  shows "collected_from E name max_results 3 sent all_attendees
           (phase2 E name max_results sent (all_attendees, seen))"
proof (cases "int (length all_attendees) < max_results")
  case False
  then show ?thesis using assms by (simp add: phase2_def collected_from_refl)
next
  case True
  show ?thesis
  proof (cases "generate_smart_keyword_queries (chars E) name")
    case (Inl e)
    with True show ?thesis by (simp add: phase2_def collected_from_error)
  next
    case (Inr keyword_queries)
    have "collected_from E name max_results (length (take 3 keyword_queries)) sent all_attendees
           (phase E name max_results (max_results * 2) (take 3 keyword_queries) sent
              (all_attendees, seen))"
      using assms by (rule phase_collected)
    then have "collected_from E name max_results 3 sent all_attendees
           (phase E name max_results (max_results * 2) (take 3 keyword_queries) sent
              (all_attendees, seen))"
      by (rule collected_from_mono) simp
    with True Inr show ?thesis by (simp add: phase2_def)
  qed
qed

lemma phase3_collected:
  assumes "username ` set all_attendees \<subseteq> seen" and "distinct (map username all_attendees)"
  shows "collected_from E name max_results 2 sent all_attendees
           (phase3 E name max_results sent (all_attendees, seen))"
proof (cases "int (length all_attendees) < max_results")
  case False
  then show ?thesis using assms by (simp add: phase3_def collected_from_refl)
next
  case True
  show ?thesis
  proof (cases "generate_broad_queries (chars E) name")
    case (Inl e)
    with True show ?thesis by (simp add: phase3_def collected_from_error)
  next
    case (Inr broad_queries)
    have "collected_from E name max_results (length (take 2 broad_queries)) sent all_attendees
           (phase E name max_results max_results (take 2 broad_queries) sent
              (all_attendees, seen))"
      using assms by (rule phase_collected)
    then have "collected_from E name max_results 2 sent all_attendees
           (phase E name max_results max_results (take 2 broad_queries) sent
              (all_attendees, seen))"
      by (rule collected_from_mono) simp
    with True Inr show ?thesis by (simp add: phase3_def)
  qed
qed

lemma collect_attendees_collected:
  "collected_from E name max_results 8 [] []
     (collect_attendees E name event_date max_results)"
proof -
  let ?p1 = "phase E name max_results (max_results * 3)
               (take 3 (generate_exact_queries (chars E) name event_date)) [] ([], {})"
  have c1: "collected_from E name max_results 3 [] [] ?p1"
  proof -
    have "collected_from E name max_results
            (length (take 3 (generate_exact_queries (chars E) name event_date))) [] [] ?p1"
      by (rule phase_collected) simp_all
    then show ?thesis by (rule collected_from_mono) simp
  qed
  obtain sent1 r1 where p1: "?p1 = (sent1, r1)" by (cases ?p1)
  show ?thesis
  proof (cases r1)
    case (Inl e)
    with p1 c1 show ?thesis
      by (simp add: collect_attendees_def collected_from_mono [where n = 3])
  next
    case (Inr state1)
    obtain all1 seen1 where st1: "state1 = (all1, seen1)" by (cases state1)
    from c1 p1 Inr st1
    have c1': "collected_from E name max_results 3 [] [] (sent1, Inr (all1, seen1))"
      by simp
    from collected_from_registered [OF c1']
    have reg1: "username ` set all1 \<subseteq> seen1" "distinct (map username all1)" by auto
    let ?p2 = "phase2 E name max_results sent1 (all1, seen1)"
    have c2: "collected_from E name max_results 3 sent1 all1 ?p2"
      using reg1 by (rule phase2_collected)
    have c12: "collected_from E name max_results (3 + 3) [] [] ?p2"
      using c1' c2 by (rule collected_from_trans)
    obtain sent2 r2 where p2: "?p2 = (sent2, r2)" by (cases ?p2)
    show ?thesis
    proof (cases r2)
      case (Inl e)
      with p1 Inr st1 p2 c12 show ?thesis
        by (simp add: collect_attendees_def collected_from_mono [where n = "3 + 3"])
    next
      case r2: (Inr state2)
      obtain all2 seen2 where st2: "state2 = (all2, seen2)" by (cases state2)
      from c12 p2 r2 st2
      have c12': "collected_from E name max_results (3 + 3) [] [] (sent2, Inr (all2, seen2))"
        by simp
      from collected_from_registered [OF c12']
      have reg2: "username ` set all2 \<subseteq> seen2" "distinct (map username all2)" by auto
      let ?p3 = "phase3 E name max_results sent2 (all2, seen2)"
      have c3: "collected_from E name max_results 2 sent2 all2 ?p3"
        using reg2 by (rule phase3_collected)
      have "collected_from E name max_results (3 + 3 + 2) [] [] ?p3"
        using c12' c3 by (rule collected_from_trans)
      with p1 Inr st1 p2 r2 st2 show ?thesis
        by (simp add: collect_attendees_def)
    qed
  qed
qed

lemma discover_attendees_result:
  "snd (discover_attendees E operational name event_date max_results) =
     py_prefix max_results (sort_descending relevance_score
       (accumulated_attendees E operational name event_date max_results))"
proof (cases operational)
  case False
  then show ?thesis
    by (simp add: discover_attendees_def accumulated_attendees_def py_prefix_Nil sort_descending_def)
next
  case True
  obtain sent r where c: "collect_attendees E name event_date max_results = (sent, r)"
    by (cases "collect_attendees E name event_date max_results")
  show ?thesis
  proof (cases r)
    case (Inl e)
    with True c show ?thesis
      by (simp add: discover_attendees_def accumulated_attendees_def guaranteed_find_attendees_def
            py_prefix_Nil sort_descending_def)
  next
    case (Inr state)
    obtain all_attendees seen where "state = (all_attendees, seen)" by (cases state)
    with True c Inr show ?thesis
      by (simp add: discover_attendees_def accumulated_attendees_def guaranteed_find_attendees_def)
  qed
qed

lemma discover_attendees_sent:
  "fst (discover_attendees E operational name event_date max_results) =
     (if operational then fst (collect_attendees E name event_date max_results) else [])"
  by (auto simp: discover_attendees_def guaranteed_find_attendees_def split: prod.splits sum.splits)

lemma accumulated_attendees_spec:
  "set (accumulated_attendees E operational name event_date max_results)
     \<subseteq> set (gateway_attendees E name
              (fst (discover_attendees E operational name event_date max_results)))
   \<and> distinct (map username (accumulated_attendees E operational name event_date max_results))
   \<and> int (length (accumulated_attendees E operational name event_date max_results))
       \<le> max 0 max_results
   \<and> length (fst (discover_attendees E operational name event_date max_results)) \<le> 8"
proof (cases operational)
  case False
  then show ?thesis
    by (simp add: discover_attendees_def accumulated_attendees_def)
next
  case True
  obtain sent r where c: "collect_attendees E name event_date max_results = (sent, r)"
    by (cases "collect_attendees E name event_date max_results")
  have inv: "collected_from E name max_results 8 [] [] (sent, r)"
    using collect_attendees_collected [of E name max_results event_date] c by simp
  then have len: "length sent \<le> 8" by (auto simp: collected_from_def)
  show ?thesis
  proof (cases r)
    case (Inl e)
    with True c len show ?thesis
      by (simp add: accumulated_attendees_def discover_attendees_sent)
  next
    case (Inr state)
    obtain all_attendees seen where st: "state = (all_attendees, seen)" by (cases state)
    from inv Inr st have "set all_attendees \<subseteq> set (gateway_attendees E name sent)"
      and "distinct (map username all_attendees)"
      and "int (length all_attendees) \<le> max 0 max_results"
      by (auto simp: collected_from_def gateway_attendees_def)
    with True c Inr st len show ?thesis
      by (simp add: accumulated_attendees_def discover_attendees_sent)
  qed
qed

section \<open>Size and origin of what a run returns\<close>

lemma accumulated_events_negative:
  assumes "max_results < 0"
  shows "accumulated_events w serp_api_key place start_date end_date categories max_results = []"
proof -
  have "fetch_events_with_date_filter w queries start_dt end_dt max_results = ([], Inr [])"
    for queries start_dt end_dt
    unfolding fetch_events_with_date_filter_def
    using assms by (simp add: fetch_loop_stops)
  thus ?thesis
    unfolding accumulated_events_def
    by (simp split: option.splits sum.splits prod.splits)
qed

lemma length_top_le:
  assumes "int (length xs) \<le> max 0 n \<or> 0 \<le> n"
  shows "int (length (py_prefix n (sort_descending key xs))) \<le> max 0 n"
proof (cases "0 \<le> n")
  case True
  have "length (py_prefix n (sort_descending key xs)) \<le> nat n"
    using True by (rule length_py_prefix)
  thus ?thesis using True by simp
next
  case False
  hence "int (length xs) \<le> max 0 n" using assms by simp
  moreover have "length (py_prefix n (sort_descending key xs)) \<le> length (sort_descending key xs)"
    by (rule length_py_prefix_le)
  ultimately show ?thesis by (simp add: length_sort_descending)
qed

lemma discover_events_length:
  "int (length (snd (discover_events w serp_api_key place start_date end_date categories max_results)))
     \<le> max 0 max_results"
proof -
  have "int (length (accumulated_events w serp_api_key place start_date end_date categories max_results))
          \<le> max 0 max_results \<or> 0 \<le> max_results"
    using accumulated_events_negative [of max_results w serp_api_key place start_date end_date categories]
    by (cases "0 \<le> max_results") simp_all
  hence "int (length (map (rescored w)
           (accumulated_events w serp_api_key place start_date end_date categories max_results)))
          \<le> max 0 max_results \<or> 0 \<le> max_results"
    by simp
  thus ?thesis
    unfolding discover_events_result score_events_by_hype_eq by (rule length_top_le)
qed

lemma discover_events_card:
  "length (snd (discover_events w serp_api_key place start_date end_date categories max_results))
     \<le> card (set (provider_events w
          (fst (discover_events w serp_api_key place start_date end_date categories max_results))))"
proof -
  define acc where
    "acc = accumulated_events w serp_api_key place start_date end_date categories max_results"
  define sent where
    "sent = fst (discover_events w serp_api_key place start_date end_date categories max_results)"
  have s: "set acc \<subseteq> set (provider_events w sent)"
    and d: "distinct (map (create_event_key (db w)) acc)"
    using accumulated_events_sound [of w serp_api_key place start_date end_date categories max_results]
    unfolding acc_def sent_def by simp_all
  have "length (snd (discover_events w serp_api_key place start_date end_date categories max_results))
          \<le> length (sort_descending hype_score (map (rescored w) acc))"
    unfolding discover_events_result score_events_by_hype_eq acc_def by (rule length_py_prefix_le)
  also have "\<dots> = length acc" by (simp add: length_sort_descending)
  also have "\<dots> \<le> card (set (provider_events w sent))"
    using d s by (rule distinct_map_length_le_card)
  finally show ?thesis unfolding sent_def .
qed

lemma discover_events_provided:
  assumes "e \<in> set (snd (discover_events w serp_api_key place start_date end_date categories max_results))"
  shows "\<exists>e0 \<in> set (accumulated_events w serp_api_key place start_date end_date categories max_results).
           e = rescored w e0
           \<and> e0 \<in> set (provider_events w
                (fst (discover_events w serp_api_key place start_date end_date categories max_results)))
           \<and> is_valid_event (db w) e0"
proof -
  obtain e0 where a: "e0 \<in> set (accumulated_events w serp_api_key place start_date end_date categories max_results)"
    and b: "e = rescored w e0"
    using discover_events_items [OF assms] by blast
  have c: "e0 \<in> set (provider_events w
                (fst (discover_events w serp_api_key place start_date end_date categories max_results)))"
    using a accumulated_events_sound [of w serp_api_key place start_date end_date categories max_results]
    by blast
  hence "is_valid_event (db w) e0"
    unfolding provider_events_def by (rule provider_events_from_valid)
  with a b c show ?thesis by blast
qed

lemma discover_attendees_length:
  "int (length (snd (discover_attendees E operational name event_date target))) \<le> max 0 target"
proof -
  have "int (length (accumulated_attendees E operational name event_date target)) \<le> max 0 target"
    using accumulated_attendees_spec [of E operational name event_date target] by simp
  hence "int (length (accumulated_attendees E operational name event_date target)) \<le> max 0 target
           \<or> 0 \<le> target"
    by simp
  thus ?thesis unfolding discover_attendees_result by (rule length_top_le)
qed

lemma discover_attendees_card:
  "length (snd (discover_attendees E operational name event_date target))
     \<le> card (set (gateway_attendees E name
          (fst (discover_attendees E operational name event_date target))))"
proof -
  define acc where "acc = accumulated_attendees E operational name event_date target"
  define sent where "sent = fst (discover_attendees E operational name event_date target)"
  have s: "set acc \<subseteq> set (gateway_attendees E name sent)"
    and d: "distinct (map username acc)"
    using accumulated_attendees_spec [of E operational name event_date target]
    unfolding acc_def sent_def by simp_all
  have "length (snd (discover_attendees E operational name event_date target))
          \<le> length (sort_descending relevance_score acc)"
    unfolding discover_attendees_result acc_def by (rule length_py_prefix_le)
  also have "\<dots> = length acc" by (simp add: length_sort_descending)
  also have "\<dots> \<le> card (set (gateway_attendees E name sent))"
    using d s by (rule distinct_map_length_le_card)
  finally show ?thesis unfolding sent_def .
qed

lemma discover_attendees_provided:
  "set (snd (discover_attendees E operational name event_date target))
     \<subseteq> set (accumulated_attendees E operational name event_date target)"
proof -
  have "set (snd (discover_attendees E operational name event_date target))
          \<subseteq> set (sort_descending relevance_score
                  (accumulated_attendees E operational name event_date target))"
    unfolding discover_attendees_result by (rule set_py_prefix)
  thus ?thesis by (simp only: set_sort_descending)
qed


lemma fetch_loop_continues:
  assumes "int (length all_events) < max_results * 2"
  shows "prefix (sent @ [query])
           (fst (fetch_loop w start_dt end_dt max_results (query # queries) sent
                   (all_events, seen_events)))"
proof (cases "merge_events w start_dt end_dt (fetch_serpapi_events w (length sent) query 10)
                (all_events, seen_events)")
  case (Inl e)
  thus ?thesis using assms by simp
next
  case (Inr collected)
  obtain all' seen' where c: "collected = (all', seen')" by (cases collected)
  obtain new where
    "fetch_loop w start_dt end_dt max_results queries (sent @ [query]) (all', seen') =
       ((sent @ [query]) @ new,
        Inr (all' @ first_seen_by (create_event_key (db w)) (Inr ` seen')
               (filter (in_range w start_dt end_dt)
                  (provider_events_from w (length (sent @ [query])) new))))"
    using fetch_loop_spec [of queries w start_dt end_dt max_results "sent @ [query]" all' seen']
    by blast
  hence "fst (fetch_loop w start_dt end_dt max_results queries (sent @ [query]) (all', seen'))
           = (sent @ [query]) @ new"
    by simp
  hence "prefix (sent @ [query])
           (fst (fetch_loop w start_dt end_dt max_results queries (sent @ [query]) (all', seen')))"
    by (simp only: prefixI)
  thus ?thesis using assms Inr c by simp
qed

lemma phase2_stops:
  "int (length all_attendees) \<ge> max_results \<Longrightarrow>
     phase2 E name max_results sent (all_attendees, seen) = (sent, Inr (all_attendees, seen))"
  by (simp add: phase2_def)

lemma phase3_stops:
  "int (length all_attendees) \<ge> max_results \<Longrightarrow>
     phase3 E name max_results sent (all_attendees, seen) = (sent, Inr (all_attendees, seen))"
  by (simp add: phase3_def)

lemma first_phase_suffices:
  assumes p: "phase E name max_results (max_results * 3)
                (take 3 (generate_exact_queries (chars E) name event_date)) [] ([], {})
              = (sent1, Inr (all1, seen1))"
    and n: "int (length all1) \<ge> max_results"
  shows "fst (discover_attendees E True name event_date max_results) = sent1 \<and> length sent1 \<le> 3"
proof -
  have "collect_attendees E name event_date max_results = (sent1, Inr (all1, seen1))"
    unfolding collect_attendees_def using p n
    by (simp add: phase2_stops phase3_stops)
  hence a: "fst (discover_attendees E True name event_date max_results) = sent1"
    by (simp add: discover_attendees_sent)
  obtain new where "sent1 = [] @ new"
    and "length new \<le> length (take 3 (generate_exact_queries (chars E) name event_date))"
    using phase_spec [OF p] by auto
  hence "length sent1 \<le> 3" by simp
  with a show ?thesis by simp
qed










section \<open>Bounds of the scores\<close>

lemma fadd_nonneg:
  assumes "\<And>x. 0 \<le> x \<Longrightarrow> 0 \<le> rnd x" and "0 \<le> a" and "0 \<le> b"
  shows "0 \<le> fadd rnd a b"
  using assms by (simp add: fadd_def)

lemma foldl_bonus_nonneg:
  assumes r: "\<And>x. 0 \<le> x \<Longrightarrow> 0 \<le> rnd x" and "0 \<le> s" and "0 \<le> bonus"
  shows "0 \<le> foldl (\<lambda>score k. if p k then fadd rnd score (rnd bonus) else score) s ks"
  using assms(2)
proof (induction ks arbitrary: s)
  case Nil
  then show ?case by simp
next
  case (Cons k ks)
  have "0 \<le> rnd bonus" using r assms(3) by simp
  then have "0 \<le> (if p k then fadd rnd s (rnd bonus) else s)"
    using Cons.prems r by (simp add: fadd_def)
  then show ?case using Cons.IH by simp
qed

lemma category_weight_nonneg:
  assumes r: "\<And>x. 0 \<le> x \<Longrightarrow> 0 \<le> rnd x"
  shows "0 \<le> (case category_weights rnd c of None \<Rightarrow> rnd (1/10) | Some weight \<Rightarrow> weight)"
  using r by (auto simp: category_weights_def split: option.splits if_splits)

lemma hype_score_bounds:
  assumes r: "\<And>x. 0 \<le> x \<Longrightarrow> 0 \<le> rnd x"
  shows "0 \<le> calculate_hype_score U rnd event \<and> calculate_hype_score U rnd event \<le> 1"
proof -
  let ?s1 = "foldl (\<lambda>score keyword.
                     if contains keyword (lower U (event_name event))
                     then fadd rnd score (rnd (1/10)) else score) 0 hype_keywords"
  let ?s2 = "foldl (\<lambda>score venue.
                     if contains venue (lower U (exact_venue event))
                     then fadd rnd score (rnd (15/100)) else score) ?s1 prestigious_venues"
  have "0 \<le> ?s1" using r by (intro foldl_bonus_nonneg) simp_all
  then have "0 \<le> ?s2" using r by (intro foldl_bonus_nonneg) simp_all
  then have "0 \<le> fadd rnd ?s2 (case category_weights rnd (category event) of
                        None \<Rightarrow> rnd (1/10) | Some weight \<Rightarrow> weight)"
    using r category_weight_nonneg [OF r] by (intro fadd_nonneg) simp_all
  then show ?thesis by (simp add: calculate_hype_score_def Let_def)
qed


lemma relevance_unfold:
  assumes "extract_keywords U name = Inr kws"
  shows "calculate_relevance_score_fast U rnd body name =
     Inr (min 1
       (let s1 = (if contains (lower U name) (lower U body) then fadd rnd 0 (rnd (6/10)) else 0);
            s2 = fadd rnd s1 (min (rnd (3/10))
                   (fmul rnd (of_nat (length (filter (\<lambda>keyword. contains keyword (lower U body)) kws)))
                      (rnd (1/10))));
            s3 = (if \<exists>phrase \<in> set engagement_phrases. contains phrase (lower U body)
                  then fadd rnd s2 (rnd (1/10)) else s2)
        in if \<exists>word \<in> set event_words. contains word (lower U body)
           then fadd rnd s3 (rnd (5/100)) else s3))"
  unfolding calculate_relevance_score_fast_def Let_def assms by simp

lemma relevance_raises:
  assumes "extract_keywords U name = Inl e"
  shows "calculate_relevance_score_fast U rnd body name = Inl e"
  unfolding calculate_relevance_score_fast_def Let_def assms by simp

lemma relevance_score_bounds:
  assumes r: "\<And>x. 0 \<le> x \<Longrightarrow> 0 \<le> rnd x"
    and c: "calculate_relevance_score_fast U rnd body name = Inr score"
  shows "0 \<le> score \<and> score \<le> 1"
proof (cases "extract_keywords U name")
  case (Inl e)
  with c relevance_raises show ?thesis by fastforce
next
  case (Inr kws)
  let ?t = "lower U body"
  define s1 where "s1 = (if contains (lower U name) ?t then fadd rnd 0 (rnd (6/10)) else 0)"
  define s2 where "s2 = fadd rnd s1 (min (rnd (3/10))
       (fmul rnd (of_nat (length (filter (\<lambda>keyword. contains keyword ?t) kws))) (rnd (1/10))))"
  define s3 where "s3 = (if \<exists>phrase \<in> set engagement_phrases. contains phrase ?t
             then fadd rnd s2 (rnd (1/10)) else s2)"
  define s4 where "s4 = (if \<exists>word \<in> set event_words. contains word ?t
             then fadd rnd s3 (rnd (5/100)) else s3)"
  have n1: "0 \<le> s1" unfolding s1_def using r by (simp add: fadd_def)
  have "0 \<le> fmul rnd (of_nat (length (filter (\<lambda>keyword. contains keyword ?t) kws))) (rnd (1/10))"
    using r by (simp add: fmul_def)
  moreover have "0 \<le> rnd (3/10)" using r by simp
  ultimately have "0 \<le> min (rnd (3/10))
       (fmul rnd (of_nat (length (filter (\<lambda>keyword. contains keyword ?t) kws))) (rnd (1/10)))"
    by simp
  with n1 have n2: "0 \<le> s2" unfolding s2_def using r by (intro fadd_nonneg)
  have "0 \<le> rnd (1/10)" using r by simp
  with n2 have n3: "0 \<le> s3" unfolding s3_def using r by (simp add: fadd_def)
  have "0 \<le> rnd (5/100)" using r by simp
  with n3 have n4: "0 \<le> s4" unfolding s4_def using r by (simp add: fadd_def)
  have "calculate_relevance_score_fast U rnd body name = Inr (min 1 s4)"
    unfolding relevance_unfold [OF Inr] s4_def s3_def s2_def s1_def Let_def ..
  with c have "score = min 1 s4" by simp
  with n4 show ?thesis by simp
qed


lemma process_tweets_scores:
  assumes "process_tweets U rnd users name ts = Inr attendees" and "a \<in> set attendees"
  shows "\<exists>body. calculate_relevance_score_fast U rnd body name = Inr (relevance_score a)"
  using assms
proof (induction ts arbitrary: attendees)
  case Nil
  then show ?case by simp
next
  case (Cons t ts)
  show ?case
  proof (cases "users (author_id t)")
    case None
    with Cons show ?thesis by simp
  next
    case (Some u)
    with Cons.prems(1) obtain score rest where
      s: "calculate_relevance_score_fast U rnd (tweet_text t) name = Inr score"
      and rest: "process_tweets U rnd users name ts = Inr rest"
      and att: "attendees = (if score \<ge> rnd (5/100) then make_attendee U rnd u t score # rest else rest)"
      by (auto split: sum.splits if_splits)
    show ?thesis
    proof (cases "a \<in> set rest")
      case True
      with Cons.IH [OF rest] show ?thesis by blast
    next
      case False
      with att Cons.prems(2) have "a = make_attendee U rnd u t score"
        by (auto split: if_splits)
      then have "relevance_score a = score" by (simp add: make_attendee_def)
      with s show ?thesis by blast
    qed
  qed
qed

lemma search_and_process_scores:
  assumes "search_and_process E i query name hint = Inr attendees" and "a \<in> set attendees"
  shows "\<exists>body. calculate_relevance_score_fast (chars E) (roundoff E) body name
                 = Inr (relevance_score a)"
proof (cases "search E i query (min hint 20)")
  case None
  with assms show ?thesis by (simp add: search_and_process_def)
next
  case (Some tweets)
  show ?thesis
  proof (cases "includes_users tweets")
    case None
    with assms Some show ?thesis
      by (simp add: search_and_process_def process_tweets_fast_def split: if_splits)
  next
    case u: (Some users)
    with assms Some have
      "process_tweets (chars E) (roundoff E) (users_dict users) name (data tweets) = Inr attendees"
      by (simp add: search_and_process_def process_tweets_fast_def split: if_splits)
    then show ?thesis using assms(2) by (rule process_tweets_scores)
  qed
qed

lemma gateway_attendees_from_scores:
  "a \<in> set (gateway_attendees_from E name i calls) \<Longrightarrow>
     \<exists>body. calculate_relevance_score_fast (chars E) (roundoff E) body name
              = Inr (relevance_score a)"
proof (induction calls arbitrary: i)
  case Nil
  then show ?case by simp
next
  case (Cons c calls)
  obtain query hint where c: "c = (query, hint)" by (cases c)
  show ?case
  proof (cases "a \<in> set (gateway_attendees_from E name (Suc i) calls)")
    case True
    then show ?thesis by (rule Cons.IH)
  next
    case False
    with Cons.prems c obtain attendees where
      "search_and_process E i query name hint = Inr attendees" and "a \<in> set attendees"
      by (cases "search_and_process E i query name hint") auto
    then show ?thesis by (rule search_and_process_scores)
  qed
qed

lemma discover_attendees_scores:
  assumes "a \<in> set (snd (discover_attendees E operational name event_date target))"
  shows "\<exists>body. calculate_relevance_score_fast (chars E) (roundoff E) body name
                 = Inr (relevance_score a)"
proof -
  have "set (snd (discover_attendees E operational name event_date target))
          \<subseteq> set (sort_descending relevance_score
                  (accumulated_attendees E operational name event_date target))"
    unfolding discover_attendees_result by (rule set_py_prefix)
  hence "a \<in> set (accumulated_attendees E operational name event_date target)"
    using assms by (auto simp only: set_sort_descending)
  hence "a \<in> set (gateway_attendees E name
                     (fst (discover_attendees E operational name event_date target)))"
    using accumulated_attendees_spec [of E operational name event_date target] by blast
  thus ?thesis
    unfolding gateway_attendees_def by (rule gateway_attendees_from_scores)
qed

section \<open>The sample runs\<close>

lemma sample_events_run:
  "discover_events sample_world (Some (lit ''k'')) (lit ''Austin'') (lit ''2024-11-01'')
       (lit ''2024-11-30'') [] 3 =
     (sample_queries,
      [jazz_gala\<lparr>hype_score := 35/100\<rparr>, chess_club\<lparr>hype_score := 1/10\<rparr>,
       book_fair\<lparr>hype_score := 1/10\<rparr>])"
  by code_simp

lemma sample_first_query:
  "fetch_events_with_date_filter sample_world [lit ''events Austin November 2024''] nov_1 nov_30 3 =
     ([lit ''events Austin November 2024''], Inr [chess_club, jazz_gala, book_fair])"
  by code_simp

lemma sample_attendees_run:
  "discover_attendees sample_setting True (lit ''Jazz Festival'') None 2 =
     ([(quoted (lit ''Jazz Festival''), 6)], [ann, bob])"
  by code_simp

lemma sample_first_phase:
  "phase sample_setting (lit ''Jazz Festival'') 2 (2 * 3)
     (take 3 (generate_exact_queries (chars sample_setting) (lit ''Jazz Festival'') None)) [] ([], {})
   = ([(quoted (lit ''Jazz Festival''), 6)], Inr ([ann, bob], {lit ''@ann'', lit ''@bob''}))"
  by code_simp

section \<open>Validation of events\<close>

text \<open>
  Claim C8. Every event of a returned sequence passed the validation: its name is not
  empty, has at least 3 characters (also after stripping whitespace) and is, in lower
  case, none of \<open>event\<close>, \<open>events\<close>, \<open>unknown\<close>, \<open>unknown event\<close>. The validation does not
  look at the score; the fetch keeps only valid events and returns a list for every
  answer of the provider, so an invalid record is dropped and nothing is raised.
\<close>

theorem generic_names_never_returned:
  "(\<forall>e \<in> set (snd (discover_events w serp_api_key place start_date end_date categories max_results)).
      is_valid_event (db w) e \<and> event_name e \<noteq> [] \<and> 3 \<le> length (event_name e)
      \<and> lower (db w) (event_name e)
          \<notin> {lit ''event'', lit ''events'', lit ''unknown'', lit ''unknown event''})
   \<and> (\<forall>e \<in> set (fetch_serpapi_events w i query n). is_valid_event (db w) e)
   \<and> (event_name e = [] \<or> length (event_name e) < 3 \<or> length (strip U (event_name e)) < 3
        \<or> lower U (event_name e) \<in> {lit ''event'', lit ''events'', lit ''unknown'', lit ''unknown event''}
        \<longrightarrow> \<not> is_valid_event U (e\<lparr>hype_score := s\<rparr>))"
proof (intro conjI ballI impI)
  fix x assume "x \<in> set (snd (discover_events w serp_api_key place start_date end_date categories max_results))"
  then obtain e0 where e0: "e0 \<in> set (accumulated_events w serp_api_key place start_date end_date categories max_results)"
    and x: "x = rescored w e0"
    using discover_events_items by blast
  from e0 accumulated_events_sound have "e0 \<in> set (provider_events w
              (fst (discover_events w serp_api_key place start_date end_date categories max_results)))"
    by blast
  then have "is_valid_event (db w) e0" unfolding provider_events_def by (rule provider_events_from_valid)
  then have v: "is_valid_event (db w) x" using x by (simp add: is_valid_rescored)
  from is_valid_event_name [OF v]
  show "is_valid_event (db w) x" and "event_name x \<noteq> []" and  "3 \<le> length (event_name x)"
    and "lower (db w) (event_name x)
          \<notin> {lit ''event'', lit ''events'', lit ''unknown'', lit ''unknown event''}"
    using v by (simp_all add: generic_names_def)
next
  fix x assume "x \<in> set (fetch_serpapi_events w i query n)"
  then show "is_valid_event (db w) x" by (rule fetch_serpapi_events_valid)
next
  assume a: "event_name e = [] \<or> length (event_name e) < 3 \<or> length (strip U (event_name e)) < 3
        \<or> lower U (event_name e) \<in> {lit ''event'', lit ''events'', lit ''unknown'', lit ''unknown event''}"
  show "\<not> is_valid_event U (e\<lparr>hype_score := s\<rparr>)"
  proof
    assume "is_valid_event U (e\<lparr>hype_score := s\<rparr>)"
    then have "is_valid_event U e" by (simp add: is_valid_hype)
    from is_valid_event_name [OF this] a show False by (auto simp: generic_names_def)
  qed
qed

text \<open>
  The theorem at the sample run, whose provider offers a record named \<open>Events in Austin\<close>
  (cleaned to \<open>Events\<close>): the events returned are valid, and an event named \<open>Events\<close>
  is invalid whatever its score.
\<close>

theorem generic_names_never_returned_witness:
  "snd (discover_events sample_world (Some (lit ''k'')) (lit ''Austin'') (lit ''2024-11-01'')
         (lit ''2024-11-30'') [] 3)
     = [jazz_gala\<lparr>hype_score := 35/100\<rparr>, chess_club\<lparr>hype_score := 1/10\<rparr>,
        book_fair\<lparr>hype_score := 1/10\<rparr>]
   \<and> is_valid_event plain (jazz_gala\<lparr>hype_score := 35/100\<rparr>)
   \<and> is_valid_event plain (chess_club\<lparr>hype_score := 1/10\<rparr>)
   \<and> clean_event_name plain (lit ''Events in Austin'') = lit ''Events''
   \<and> lower plain (lit ''Events'') = lit ''events''
   \<and> \<not> is_valid_event plain (jazz_gala\<lparr>event_name := lit ''Events'', hype_score := 1\<rparr>)"
proof -
  have c: "clean_event_name plain (lit ''Events in Austin'') = lit ''Events''" by code_simp
  have l: "lower plain (lit ''Events'') = lit ''events''" by code_simp
  have d: "db sample_world = plain" by (simp add: sample_world_def)
  from generic_names_never_returned [of sample_world "Some (lit ''k'')" "lit ''Austin''"
      "lit ''2024-11-01''" "lit ''2024-11-30''" "[]" 3 0 "lit ''q''" 10
      "jazz_gala\<lparr>event_name := lit ''Events''\<rparr>" plain 1]
  show ?thesis
    by (simp add: sample_events_run c l d)
qed

section \<open>Deduplication of events\<close>



section \<open>Order of the results\<close>

text \<open>
  Claim C4. For every discovery run, the returned sequence is sorted in non-increasing
  order of score (hype score for events, relevance score for attendees), and returned
  items with equal scores stand in the order in which they were accumulated: for every
  score, the returned items with that score are an initial part of the accumulated
  items with that score, in the same order, and two returned items with equal scores,
  one before the other, were accumulated in that order. An accumulated event is
  returned with its hype score assigned (\<open>rescored\<close>).
\<close>

theorem results_sorted_stable:
  "sorted_wrt (\<lambda>a b. hype_score a \<ge> hype_score b)
     (snd (discover_events w serp_api_key place start_date end_date categories max_results))
   \<and> prefix
       (filter (\<lambda>e. hype_score e = s)
          (snd (discover_events w serp_api_key place start_date end_date categories max_results)))
       (filter (\<lambda>e. hype_score e = s)
          (map (rescored w)
             (accumulated_events w serp_api_key place start_date end_date categories max_results)))
   \<and> (subseq [e1, e2]
          (snd (discover_events w serp_api_key place start_date end_date categories max_results))
        \<and> hype_score e1 = hype_score e2
        \<longrightarrow> subseq [e1, e2]
              (map (rescored w)
                 (accumulated_events w serp_api_key place start_date end_date categories max_results)))
   \<and> sorted_wrt (\<lambda>a b. relevance_score a \<ge> relevance_score b)
       (snd (discover_attendees E operational name event_date target))
   \<and> prefix
       (filter (\<lambda>a. relevance_score a = r)
          (snd (discover_attendees E operational name event_date target)))
       (filter (\<lambda>a. relevance_score a = r)
          (accumulated_attendees E operational name event_date target))
   \<and> (subseq [a1, a2] (snd (discover_attendees E operational name event_date target))
        \<and> relevance_score a1 = relevance_score a2
        \<longrightarrow> subseq [a1, a2] (accumulated_attendees E operational name event_date target))"
proof -
  define result where
    "result = snd (discover_events w serp_api_key place start_date end_date categories max_results)"
  define acc where
    "acc = map (rescored w)
             (accumulated_events w serp_api_key place start_date end_date categories max_results)"
  define found where "found = snd (discover_attendees E operational name event_date target)"
  define gathered where
    "gathered = accumulated_attendees E operational name event_date target"
  have r: "result = py_prefix max_results (sort_descending hype_score acc)"
    unfolding result_def acc_def discover_events_result score_events_by_hype_eq ..
  have f: "found = py_prefix target (sort_descending relevance_score gathered)"
    unfolding found_def gathered_def discover_attendees_result ..
  have 1: "sorted_wrt (\<lambda>a b. hype_score a \<ge> hype_score b) result"
    unfolding r by (rule top_sorted)
  have 2: "prefix (filter (\<lambda>e. hype_score e = k) result) (filter (\<lambda>e. hype_score e = k) acc)" for k
    unfolding r by (rule top_stable)
  have 3: "subseq [e1, e2] result \<and> hype_score e1 = hype_score e2 \<longrightarrow> subseq [e1, e2] acc"
    using tie_order_kept [OF 2 [of "hype_score e1"], of e2] by blast
  have 4: "sorted_wrt (\<lambda>a b. relevance_score a \<ge> relevance_score b) found"
    unfolding f by (rule top_sorted)
  have 5: "prefix (filter (\<lambda>a. relevance_score a = k) found)
                  (filter (\<lambda>a. relevance_score a = k) gathered)" for k
    unfolding f by (rule top_stable)
  have 6: "subseq [a1, a2] found \<and> relevance_score a1 = relevance_score a2
             \<longrightarrow> subseq [a1, a2] gathered"
    using tie_order_kept [OF 5 [of "relevance_score a1"], of a2] by blast
  show ?thesis
    using 1 2 [of s] 3 4 5 [of r] 6
    unfolding result_def acc_def found_def gathered_def by (intro conjI)
qed

text \<open>
  The theorem at the sample runs. The events \<open>Chess Club\<close> and \<open>Book Fair\<close> both score 0.1
  and are returned after \<open>Jazz Gala\<close>, in the order in which they were accumulated; the
  attendees \<open>@ann\<close> and \<open>@bob\<close> both score 0.95 and are returned in the order in which they
  were accumulated.
\<close>

theorem results_sorted_stable_witness:
  "snd (discover_events sample_world (Some (lit ''k'')) (lit ''Austin'') (lit ''2024-11-01'')
         (lit ''2024-11-30'') [] 3)
     = [jazz_gala\<lparr>hype_score := 35/100\<rparr>, chess_club\<lparr>hype_score := 1/10\<rparr>,
        book_fair\<lparr>hype_score := 1/10\<rparr>]
   \<and> sorted_wrt (\<lambda>a b. hype_score a \<ge> hype_score b)
       [jazz_gala\<lparr>hype_score := 35/100\<rparr>, chess_club\<lparr>hype_score := 1/10\<rparr>,
        book_fair\<lparr>hype_score := 1/10\<rparr>]
   \<and> subseq [chess_club\<lparr>hype_score := 1/10\<rparr>, book_fair\<lparr>hype_score := 1/10\<rparr>]
       (map (rescored sample_world)
          (accumulated_events sample_world (Some (lit ''k'')) (lit ''Austin'') (lit ''2024-11-01'')
             (lit ''2024-11-30'') [] 3))
   \<and> snd (discover_attendees sample_setting True (lit ''Jazz Festival'') None 2) = [ann, bob]
   \<and> sorted_wrt (\<lambda>a b. relevance_score a \<ge> relevance_score b) [ann, bob]
   \<and> subseq [ann, bob]
       (accumulated_attendees sample_setting True (lit ''Jazz Festival'') None 2)"
proof -
  note T = results_sorted_stable [of sample_world "Some (lit ''k'')" "lit ''Austin''"
      "lit ''2024-11-01''" "lit ''2024-11-30''" "[]" 3 "1/10"
      "chess_club\<lparr>hype_score := 1/10\<rparr>" "book_fair\<lparr>hype_score := 1/10\<rparr>"
      sample_setting True "lit ''Jazz Festival''" None 2 "19/20" ann bob]
  have r: "snd (discover_events sample_world (Some (lit ''k'')) (lit ''Austin'') (lit ''2024-11-01'')
         (lit ''2024-11-30'') [] 3)
     = [jazz_gala\<lparr>hype_score := 35/100\<rparr>, chess_club\<lparr>hype_score := 1/10\<rparr>,
        book_fair\<lparr>hype_score := 1/10\<rparr>]"
    by (simp only: sample_events_run snd_conv)
  have f: "snd (discover_attendees sample_setting True (lit ''Jazz Festival'') None 2) = [ann, bob]"
    by (simp only: sample_attendees_run snd_conv)
  have s1: "sorted_wrt (\<lambda>a b. hype_score a \<ge> hype_score b)
       [jazz_gala\<lparr>hype_score := 35/100\<rparr>, chess_club\<lparr>hype_score := 1/10\<rparr>,
        book_fair\<lparr>hype_score := 1/10\<rparr>]"
    using T [THEN conjunct1] unfolding r .
  have h1: "subseq [chess_club\<lparr>hype_score := 1/10\<rparr>, book_fair\<lparr>hype_score := 1/10\<rparr>]
       [jazz_gala\<lparr>hype_score := 35/100\<rparr>, chess_club\<lparr>hype_score := 1/10\<rparr>,
        book_fair\<lparr>hype_score := 1/10\<rparr>]
     \<and> hype_score (chess_club\<lparr>hype_score := 1/10\<rparr>) = hype_score (book_fair\<lparr>hype_score := 1/10\<rparr>)"
    by simp
  have t1: "subseq [chess_club\<lparr>hype_score := 1/10\<rparr>, book_fair\<lparr>hype_score := 1/10\<rparr>]
       (map (rescored sample_world)
          (accumulated_events sample_world (Some (lit ''k'')) (lit ''Austin'') (lit ''2024-11-01'')
             (lit ''2024-11-30'') [] 3))"
    using T [THEN conjunct2, THEN conjunct2, THEN conjunct1, unfolded r, THEN mp, OF h1] .
  have s2: "sorted_wrt (\<lambda>a b. relevance_score a \<ge> relevance_score b) [ann, bob]"
    using T [THEN conjunct2, THEN conjunct2, THEN conjunct2, THEN conjunct1] unfolding f .
  have h2: "subseq [ann, bob] [ann, bob] \<and> relevance_score ann = relevance_score bob"
    by (simp add: ann_def bob_def)
  have t2: "subseq [ann, bob]
       (accumulated_attendees sample_setting True (lit ''Jazz Festival'') None 2)"
    using T [THEN conjunct2, THEN conjunct2, THEN conjunct2, THEN conjunct2, THEN conjunct2,
             unfolded f, THEN mp, OF h2] .
  from r s1 t1 f s2 t2 show ?thesis by (intro conjI)
qed

section \<open>Size and origin of the results\<close>

text \<open>
  Claim C1. For every discovery run (events or attendees) and every target count N,
  the returned sequence has length at most N (it is empty when N is negative), its
  length is at most the number of distinct valid records the provider produced during
  the run, and every returned item is one of the accumulated items, each of which was
  read from an answer of the provider: nothing is made up to reach N. A returned event
  is the accumulated event with its hype score assigned (\<open>rescored\<close>).
\<close>

theorem results_bounded_and_provided:
  "int (length (snd (discover_events w serp_api_key place start_date end_date categories max_results)))
     \<le> max 0 max_results
   \<and> length (snd (discover_events w serp_api_key place start_date end_date categories max_results))
     \<le> card (set (provider_events w
          (fst (discover_events w serp_api_key place start_date end_date categories max_results))))
   \<and> (\<forall>e \<in> set (snd (discover_events w serp_api_key place start_date end_date categories max_results)).
        \<exists>e0 \<in> set (accumulated_events w serp_api_key place start_date end_date categories max_results).
          e = rescored w e0
          \<and> e0 \<in> set (provider_events w
               (fst (discover_events w serp_api_key place start_date end_date categories max_results)))
          \<and> is_valid_event (db w) e0)
   \<and> int (length (snd (discover_attendees E operational name event_date target))) \<le> max 0 target
   \<and> length (snd (discover_attendees E operational name event_date target))
     \<le> card (set (gateway_attendees E name
          (fst (discover_attendees E operational name event_date target))))
   \<and> set (snd (discover_attendees E operational name event_date target))
     \<subseteq> set (accumulated_attendees E operational name event_date target)
   \<and> set (accumulated_attendees E operational name event_date target)
     \<subseteq> set (gateway_attendees E name
          (fst (discover_attendees E operational name event_date target)))"
proof -
  have 3: "\<forall>e \<in> set (snd (discover_events w serp_api_key place start_date end_date categories max_results)).
        \<exists>e0 \<in> set (accumulated_events w serp_api_key place start_date end_date categories max_results).
          e = rescored w e0
          \<and> e0 \<in> set (provider_events w
               (fst (discover_events w serp_api_key place start_date end_date categories max_results)))
          \<and> is_valid_event (db w) e0"
    by (rule ballI) (rule discover_events_provided)
  have 7: "set (accumulated_attendees E operational name event_date target)
     \<subseteq> set (gateway_attendees E name
          (fst (discover_attendees E operational name event_date target)))"
    using accumulated_attendees_spec [of E operational name event_date target] by (rule conjunct1)
  from discover_events_length discover_events_card 3 discover_attendees_length
    discover_attendees_card discover_attendees_provided 7
  show ?thesis by (intro conjI)
qed

text \<open>
  The theorem at the sample runs: three events for a target of three and two attendees
  for a target of two, each of them read from an answer of the provider.
\<close>

theorem results_bounded_and_provided_witness:
  "snd (discover_events sample_world (Some (lit ''k'')) (lit ''Austin'') (lit ''2024-11-01'')
         (lit ''2024-11-30'') [] 3)
     = [jazz_gala\<lparr>hype_score := 35/100\<rparr>, chess_club\<lparr>hype_score := 1/10\<rparr>,
        book_fair\<lparr>hype_score := 1/10\<rparr>]
   \<and> 3 \<le> card (set (provider_events sample_world sample_queries))
   \<and> (\<exists>e0 \<in> set (accumulated_events sample_world (Some (lit ''k'')) (lit ''Austin'')
                     (lit ''2024-11-01'') (lit ''2024-11-30'') [] 3).
         jazz_gala\<lparr>hype_score := 35/100\<rparr> = rescored sample_world e0
         \<and> e0 \<in> set (provider_events sample_world sample_queries)
         \<and> is_valid_event plain e0)
   \<and> snd (discover_attendees sample_setting True (lit ''Jazz Festival'') None 2) = [ann, bob]
   \<and> 2 \<le> card (set (gateway_attendees sample_setting (lit ''Jazz Festival'')
                       [(quoted (lit ''Jazz Festival''), 6)]))
   \<and> set [ann, bob]
       \<subseteq> set (accumulated_attendees sample_setting True (lit ''Jazz Festival'') None 2)"
proof -
  note T = results_bounded_and_provided [of sample_world "Some (lit ''k'')" "lit ''Austin''"
      "lit ''2024-11-01''" "lit ''2024-11-30''" "[]" 3
      sample_setting True "lit ''Jazz Festival''" None 2]
  have d: "db sample_world = plain" by (simp add: sample_world_def)
  have r: "snd (discover_events sample_world (Some (lit ''k'')) (lit ''Austin'') (lit ''2024-11-01'')
         (lit ''2024-11-30'') [] 3)
     = [jazz_gala\<lparr>hype_score := 35/100\<rparr>, chess_club\<lparr>hype_score := 1/10\<rparr>,
        book_fair\<lparr>hype_score := 1/10\<rparr>]"
    by (simp only: sample_events_run snd_conv)
  have q: "fst (discover_events sample_world (Some (lit ''k'')) (lit ''Austin'') (lit ''2024-11-01'')
         (lit ''2024-11-30'') [] 3) = sample_queries"
    by (simp only: sample_events_run fst_conv)
  have f: "snd (discover_attendees sample_setting True (lit ''Jazz Festival'') None 2) = [ann, bob]"
    by (simp only: sample_attendees_run snd_conv)
  have g: "fst (discover_attendees sample_setting True (lit ''Jazz Festival'') None 2)
             = [(quoted (lit ''Jazz Festival''), 6)]"
    by (simp only: sample_attendees_run fst_conv)
  have c1: "3 \<le> card (set (provider_events sample_world sample_queries))"
    using T [THEN conjunct2, THEN conjunct1] unfolding r q by simp
  have m: "jazz_gala\<lparr>hype_score := 35/100\<rparr>
             \<in> set [jazz_gala\<lparr>hype_score := 35/100\<rparr>, chess_club\<lparr>hype_score := 1/10\<rparr>,
                    book_fair\<lparr>hype_score := 1/10\<rparr>]"
    by simp
  have c2: "\<exists>e0 \<in> set (accumulated_events sample_world (Some (lit ''k'')) (lit ''Austin'')
                     (lit ''2024-11-01'') (lit ''2024-11-30'') [] 3).
         jazz_gala\<lparr>hype_score := 35/100\<rparr> = rescored sample_world e0
         \<and> e0 \<in> set (provider_events sample_world sample_queries)
         \<and> is_valid_event plain e0"
    using T [THEN conjunct2, THEN conjunct2, THEN conjunct1, unfolded r q d, THEN bspec, OF m] .
  have c3: "2 \<le> card (set (gateway_attendees sample_setting (lit ''Jazz Festival'')
                       [(quoted (lit ''Jazz Festival''), 6)]))"
    using T [THEN conjunct2, THEN conjunct2, THEN conjunct2, THEN conjunct2, THEN conjunct1]
    unfolding f g by simp
  have c4: "set [ann, bob]
       \<subseteq> set (accumulated_attendees sample_setting True (lit ''Jazz Festival'') None 2)"
    using T [THEN conjunct2, THEN conjunct2, THEN conjunct2, THEN conjunct2, THEN conjunct2,
             THEN conjunct1]
    unfolding f .
  from r c1 c2 f c3 c4 show ?thesis by (intro conjI)
qed

section \<open>Range of the scores\<close>

text \<open>
  Claim C5. For every event and every attendee in any returned sequence, the score
  assigned by the scoring function (hype score for events, relevance score for
  attendees) lies in the closed interval from 0.0 to 1.0, and so does every value the
  scoring functions return, for all names, venues, categories, post texts and event
  names. The scores are floats: the one thing used of float arithmetic is that the
  rounded value of a non-negative real is not negative.
\<close>

theorem scores_in_unit_interval:
  assumes "\<forall>x. 0 \<le> x \<longrightarrow> 0 \<le> rounding_of w x"
    and "\<forall>x. 0 \<le> x \<longrightarrow> 0 \<le> roundoff E x"
  shows "(\<forall>e \<in> set (snd (discover_events w serp_api_key place start_date end_date categories
                            max_results)).
            0 \<le> hype_score e \<and> hype_score e \<le> 1)
       \<and> (\<forall>a \<in> set (snd (discover_attendees E operational name event_date target)).
            0 \<le> relevance_score a \<and> relevance_score a \<le> 1)
       \<and> 0 \<le> calculate_hype_score U (rounding_of w) event
       \<and> calculate_hype_score U (rounding_of w) event \<le> 1
       \<and> (\<forall>score. calculate_relevance_score_fast U (roundoff E) post event_title = Inr score
             \<longrightarrow> 0 \<le> score \<and> score \<le> 1)"
proof -
  have a1: "0 \<le> rounding_of w x" if "0 \<le> x" for x
    using assms(1) that by blast
  have a2: "0 \<le> roundoff E x" if "0 \<le> x" for x
    using assms(2) that by blast
  have 1: "\<forall>e \<in> set (snd (discover_events w serp_api_key place start_date end_date categories
                            max_results)).
            0 \<le> hype_score e \<and> hype_score e \<le> 1"
  proof
    fix e
    assume "e \<in> set (snd (discover_events w serp_api_key place start_date end_date categories
                            max_results))"
    then obtain e0 where "e = rescored w e0"
      using discover_events_items by blast
    hence "hype_score e = calculate_hype_score (db w) (rounding_of w) e0"
      by (simp add: rescored_def)
    thus "0 \<le> hype_score e \<and> hype_score e \<le> 1"
      using hype_score_bounds [of "rounding_of w" "db w" e0] a1 by simp
  qed
  have 2: "\<forall>a \<in> set (snd (discover_attendees E operational name event_date target)).
            0 \<le> relevance_score a \<and> relevance_score a \<le> 1"
  proof
    fix a
    assume "a \<in> set (snd (discover_attendees E operational name event_date target))"
    then obtain body where
      "calculate_relevance_score_fast (chars E) (roundoff E) body name = Inr (relevance_score a)"
      using discover_attendees_scores by blast
    thus "0 \<le> relevance_score a \<and> relevance_score a \<le> 1"
      using a2 by (rule relevance_score_bounds [rotated])
  qed
  have 3: "0 \<le> calculate_hype_score U (rounding_of w) event
             \<and> calculate_hype_score U (rounding_of w) event \<le> 1"
    using a1 by (rule hype_score_bounds)
  have 4: "\<forall>score. calculate_relevance_score_fast U (roundoff E) post event_title = Inr score
             \<longrightarrow> 0 \<le> score \<and> score \<le> 1"
    using a2 relevance_score_bounds [of "roundoff E" U post event_title] by blast
  from 1 2 3 [THEN conjunct1] 3 [THEN conjunct2] 4 show ?thesis by (intro conjI)
qed

text \<open>
  The theorem at the sample runs, without rounding error: the events score 0.35, 0.1
  and 0.1, the attendees 0.95 each.
\<close>

theorem scores_in_unit_interval_witness:
  "snd (discover_events sample_world (Some (lit ''k'')) (lit ''Austin'') (lit ''2024-11-01'')
         (lit ''2024-11-30'') [] 3)
     = [jazz_gala\<lparr>hype_score := 35/100\<rparr>, chess_club\<lparr>hype_score := 1/10\<rparr>,
        book_fair\<lparr>hype_score := 1/10\<rparr>]
   \<and> 0 \<le> hype_score (jazz_gala\<lparr>hype_score := 35/100\<rparr>)
   \<and> hype_score (jazz_gala\<lparr>hype_score := 35/100\<rparr>) \<le> 1
   \<and> snd (discover_attendees sample_setting True (lit ''Jazz Festival'') None 2) = [ann, bob]
   \<and> 0 \<le> relevance_score ann \<and> relevance_score ann \<le> 1
   \<and> calculate_relevance_score_fast plain (\<lambda>x. x) (lit ''Going to the Jazz Festival tonight'')
         (lit ''Jazz Festival'') = Inr (19/20)
   \<and> 0 \<le> (19/20 :: real) \<and> (19/20 :: real) \<le> 1"
proof -
  have h1: "\<forall>x. 0 \<le> x \<longrightarrow> 0 \<le> rounding_of sample_world x"
    by (simp add: sample_world_def)
  have h2: "\<forall>x. 0 \<le> x \<longrightarrow> 0 \<le> roundoff sample_setting x"
    by (simp add: sample_setting_def)
  have ro: "roundoff sample_setting = (\<lambda>x. x)" by (simp add: sample_setting_def)
  note T = scores_in_unit_interval [of sample_world sample_setting "Some (lit ''k'')"
      "lit ''Austin''" "lit ''2024-11-01''" "lit ''2024-11-30''" "[]" 3
      True "lit ''Jazz Festival''" None 2 plain jazz_gala
      "lit ''Going to the Jazz Festival tonight''" "lit ''Jazz Festival''", OF h1 h2]
  have r: "snd (discover_events sample_world (Some (lit ''k'')) (lit ''Austin'') (lit ''2024-11-01'')
         (lit ''2024-11-30'') [] 3)
     = [jazz_gala\<lparr>hype_score := 35/100\<rparr>, chess_club\<lparr>hype_score := 1/10\<rparr>,
        book_fair\<lparr>hype_score := 1/10\<rparr>]"
    by (simp only: sample_events_run snd_conv)
  have f: "snd (discover_attendees sample_setting True (lit ''Jazz Festival'') None 2) = [ann, bob]"
    by (simp only: sample_attendees_run snd_conv)
  have m1: "jazz_gala\<lparr>hype_score := 35/100\<rparr>
             \<in> set [jazz_gala\<lparr>hype_score := 35/100\<rparr>, chess_club\<lparr>hype_score := 1/10\<rparr>,
                    book_fair\<lparr>hype_score := 1/10\<rparr>]"
    by simp
  have m2: "ann \<in> set [ann, bob]" by simp
  have c1: "0 \<le> hype_score (jazz_gala\<lparr>hype_score := 35/100\<rparr>)
            \<and> hype_score (jazz_gala\<lparr>hype_score := 35/100\<rparr>) \<le> 1"
    using T [THEN conjunct1, unfolded r, THEN bspec, OF m1] .
  have c2: "0 \<le> relevance_score ann \<and> relevance_score ann \<le> 1"
    using T [THEN conjunct2, THEN conjunct1, unfolded f, THEN bspec, OF m2] .
  have v: "calculate_relevance_score_fast plain (\<lambda>x. x) (lit ''Going to the Jazz Festival tonight'')
         (lit ''Jazz Festival'') = Inr (19/20)"
    by code_simp
  have c3: "0 \<le> (19/20 :: real) \<and> (19/20 :: real) \<le> 1"
    using T [THEN conjunct2, THEN conjunct2, THEN conjunct2, THEN conjunct2, unfolded ro,
             THEN spec, THEN mp, OF v] .
  from r c1 [THEN conjunct1] c1 [THEN conjunct2] f c2 [THEN conjunct1] c2 [THEN conjunct2] v
    c3 [THEN conjunct1] c3 [THEN conjunct2]
  show ?thesis by (intro conjI)
qed

section \<open>Stopping at the target\<close>

text \<open>
  Claim C2, as the code has it. In the discovery of attendees, once the accumulated
  count has reached the target no further call is made: from a state with at least
  \<open>max_results\<close> attendees, the loop of a phase, phase two and phase three return
  without a call, and when phase one alone yields \<open>max_results\<close> attendees the calls of
  the run are those of phase one, at most three. In the discovery of events the loop
  stops at twice the target: from a state with at least \<open>2 * max_results\<close> events no
  further query is sent, and from a state with fewer the next query is sent, also when
  \<open>max_results\<close> has been reached.
\<close>

theorem stops_at_target:
  "(int (length all_attendees) \<ge> target \<longrightarrow>
       phase E name target hint queries sent (all_attendees, seen) = (sent, Inr (all_attendees, seen))
     \<and> phase2 E name target sent (all_attendees, seen) = (sent, Inr (all_attendees, seen))
     \<and> phase3 E name target sent (all_attendees, seen) = (sent, Inr (all_attendees, seen)))
   \<and> (phase E name target (target * 3)
         (take 3 (generate_exact_queries (chars E) name event_date)) [] ([], {})
         = (sent1, Inr (all1, seen1))
       \<and> int (length all1) \<ge> target \<longrightarrow>
       fst (discover_attendees E True name event_date target) = sent1 \<and> length sent1 \<le> 3)
   \<and> (int (length all_events) \<ge> max_results * 2 \<longrightarrow>
       fetch_loop w start_dt end_dt max_results searches asked (all_events, seen_events)
         = (asked, Inr all_events))
   \<and> (int (length all_events) < max_results * 2 \<longrightarrow>
       prefix (asked @ [query])
         (fst (fetch_loop w start_dt end_dt max_results (query # searches) asked
                 (all_events, seen_events))))"
  using phase_stops [of target all_attendees E name hint queries sent seen]
    phase2_stops [of target all_attendees E name sent seen]
    phase3_stops [of target all_attendees E name sent seen]
    first_phase_suffices [of E name target event_date sent1 all1 seen1]
    fetch_loop_stops [of max_results all_events w start_dt end_dt searches asked seen_events]
    fetch_loop_continues [of all_events max_results asked query w start_dt end_dt searches seen_events]
  by blast

text \<open>
  The theorem at the sample runs. With two attendees for a target of two, no phase
  makes a call, and the run for \<open>Jazz Festival\<close> makes the one call of phase one that
  yielded them. With three events, the loop over the queries stops for a target of
  one and sends the next query for a target of three.
\<close>

theorem stops_at_target_witness:
  "phase sample_setting (lit ''Jazz Festival'') 2 4 [(lit ''main_keyword'', lit ''jazz'')]
       [(quoted (lit ''Jazz Festival''), 6)] ([ann, bob], {lit ''@ann'', lit ''@bob''})
     = ([(quoted (lit ''Jazz Festival''), 6)], Inr ([ann, bob], {lit ''@ann'', lit ''@bob''}))
   \<and> phase2 sample_setting (lit ''Jazz Festival'') 2
       [(quoted (lit ''Jazz Festival''), 6)] ([ann, bob], {lit ''@ann'', lit ''@bob''})
     = ([(quoted (lit ''Jazz Festival''), 6)], Inr ([ann, bob], {lit ''@ann'', lit ''@bob''}))
   \<and> phase3 sample_setting (lit ''Jazz Festival'') 2
       [(quoted (lit ''Jazz Festival''), 6)] ([ann, bob], {lit ''@ann'', lit ''@bob''})
     = ([(quoted (lit ''Jazz Festival''), 6)], Inr ([ann, bob], {lit ''@ann'', lit ''@bob''}))
   \<and> fst (discover_attendees sample_setting True (lit ''Jazz Festival'') None 2)
     = [(quoted (lit ''Jazz Festival''), 6)]
   \<and> length [(quoted (lit ''Jazz Festival''), 6 :: int)] \<le> 3
   \<and> fetch_loop sample_world nov_1 nov_30 1 [lit ''November events Austin 2024'']
       [lit ''events Austin November 2024''] ([chess_club, jazz_gala, book_fair], {})
     = ([lit ''events Austin November 2024''], Inr [chess_club, jazz_gala, book_fair])
   \<and> prefix ([lit ''events Austin November 2024''] @ [lit ''November events Austin 2024''])
       (fst (fetch_loop sample_world nov_1 nov_30 3 (lit ''November events Austin 2024'' # [])
               [lit ''events Austin November 2024''] ([chess_club, jazz_gala, book_fair], {})))"
proof -
  note A = stops_at_target [where all_attendees = "[ann, bob]" and target = 2
      and E = sample_setting and name = "lit ''Jazz Festival''" and hint = 4
      and queries = "[(lit ''main_keyword'', lit ''jazz'')]"
      and sent = "[(quoted (lit ''Jazz Festival''), 6)]"
      and seen = "{lit ''@ann'', lit ''@bob''}" and event_date = None
      and ?sent1.0 = "[(quoted (lit ''Jazz Festival''), 6)]" and ?all1.0 = "[ann, bob]"
      and ?seen1.0 = "{lit ''@ann'', lit ''@bob''}"
      and all_events = "[chess_club, jazz_gala, book_fair]" and max_results = 1
      and w = sample_world and start_dt = nov_1 and end_dt = nov_30
      and searches = "[lit ''November events Austin 2024'']"
      and asked = "[lit ''events Austin November 2024'']" and seen_events = "{}"
      and query = "lit ''November events Austin 2024''"]
  note B = stops_at_target [where all_attendees = "[ann, bob]" and target = 2
      and E = sample_setting and name = "lit ''Jazz Festival''" and hint = 4
      and queries = "[(lit ''main_keyword'', lit ''jazz'')]"
      and sent = "[(quoted (lit ''Jazz Festival''), 6)]"
      and seen = "{lit ''@ann'', lit ''@bob''}" and event_date = None
      and ?sent1.0 = "[(quoted (lit ''Jazz Festival''), 6)]" and ?all1.0 = "[ann, bob]"
      and ?seen1.0 = "{lit ''@ann'', lit ''@bob''}"
      and all_events = "[chess_club, jazz_gala, book_fair]" and max_results = 3
      and w = sample_world and start_dt = nov_1 and end_dt = nov_30
      and searches = "[]"
      and asked = "[lit ''events Austin November 2024'']" and seen_events = "{}"
      and query = "lit ''November events Austin 2024''"]
  have h1: "int (length [ann, bob]) \<ge> 2" by simp
  have h3: "int (length [chess_club, jazz_gala, book_fair]) \<ge> 1 * 2" by simp
  have h4: "int (length [chess_club, jazz_gala, book_fair]) < 3 * 2" by simp
  note c1 = A [THEN conjunct1, THEN mp, OF h1]
  note c2 = A [THEN conjunct2, THEN conjunct1, THEN mp, OF conjI [OF sample_first_phase h1]]
  note c3 = A [THEN conjunct2, THEN conjunct2, THEN conjunct1, THEN mp, OF h3]
  note c4 = B [THEN conjunct2, THEN conjunct2, THEN conjunct2, THEN mp, OF h4]
  from c1 [THEN conjunct1] c1 [THEN conjunct2, THEN conjunct1] c1 [THEN conjunct2, THEN conjunct2]
    c2 [THEN conjunct1] c2 [THEN conjunct2] c3 c4
  show ?thesis by (intro conjI)
qed

text \<open>
  Against the claim as worded: in the sample run for a target of three events, the
  answer to the first query yields three events in range, and the run goes on to send
  all seven of its queries.
\<close>

theorem queries_after_target_counterexample:
  "fetch_events_with_date_filter sample_world [sample_queries ! 0] nov_1 nov_30 3
     = ([sample_queries ! 0], Inr [chess_club, jazz_gala, book_fair])
   \<and> int (length [chess_club, jazz_gala, book_fair]) \<ge> 3
   \<and> fst (discover_events sample_world (Some (lit ''k'')) (lit ''Austin'') (lit ''2024-11-01'')
            (lit ''2024-11-30'') [] 3) = sample_queries
   \<and> length sample_queries = 7"
proof -
  have q: "sample_queries ! 0 = lit ''events Austin November 2024''"
    by (simp add: sample_queries_def)
  have a: "fetch_events_with_date_filter sample_world [sample_queries ! 0] nov_1 nov_30 3
     = ([sample_queries ! 0], Inr [chess_club, jazz_gala, book_fair])"
    unfolding q by (rule sample_first_query)
  have b: "fst (discover_events sample_world (Some (lit ''k'')) (lit ''Austin'') (lit ''2024-11-01'')
            (lit ''2024-11-30'') [] 3) = sample_queries"
    by (simp only: sample_events_run fst_conv)
  have c: "length sample_queries = 7" by (simp add: sample_queries_def)
  have d: "int (length [chess_club, jazz_gala, book_fair]) \<ge> 3" by simp
  from a d b c show ?thesis by (intro conjI)
qed

section \<open>Dates of the provider and the range\<close>




end
